theory Spec2Isabelle
  imports Main
begin

section \<open>The interpreter (bf_interpreter.py)\<close>

text \<open>
  Every way \<open>run_bf\<close> can fail. The three \<open>RuntimeError\<close>s of the source are told apart by
  their message; \<open>ZeroDivisionError\<close> (\<open>% cell_size\<close> with \<open>cell_size = 0\<close>),
  \<open>ValueError\<close> (\<open>chr\<close> outside \<open>range(0x110000)\<close>), \<open>IndexError\<close> (\<open>tape[ptr]\<close>
  past the end) and \<open>KeyError\<close> (\<open>brackets[ip]\<close> missing) are the implicit raises of the
  Python operations the loop uses.
\<close>

datatype error =
    UnmatchedClose nat
  | UnmatchedOpen nat
  | Exceeded int "int list"
  | PointerBelowZero nat
  | ZeroDivisionError
  | ValueError
  | IndexError
  | KeyError

definition is_op :: "char \<Rightarrow> bool" where
  "is_op c = (c \<in> set ''><+-.,[]'')"

text \<open>
  The bracket pre-pass, lines 25-35: \<open>i\<close> is the position \<open>enumerate\<close> gives, the stack has
  its top at the head (\<open>stack.append(i)\<close> is \<open>i # stack\<close>, \<open>stack.pop()\<close> takes the head,
  \<open>stack[-1]\<close> is the head), \<open>brackets\<close> is the dictionary.
\<close>

fun match_brackets ::
  "char list \<Rightarrow> nat \<Rightarrow> nat list \<Rightarrow> (nat \<rightharpoonup> nat) \<Rightarrow> error + (nat list \<times> (nat \<rightharpoonup> nat))" where
  "match_brackets [] i stack brackets = Inr (stack, brackets)"
| "match_brackets (op # ops) i stack brackets =
     (if op = CHR ''['' then match_brackets ops (i + 1) (i # stack) brackets
      else if op = CHR '']'' then
        (case stack of
           [] \<Rightarrow> Inl (UnmatchedClose i)
         | j # stack' \<Rightarrow> match_brackets ops (i + 1) stack' (brackets(j \<mapsto> i, i \<mapsto> j)))
      else match_brackets ops (i + 1) stack brackets)"

text \<open>The mutable variables of the execution phase, lines 40-46 (\<open>steps\<close> is passed apart).\<close>

record state =
  tape :: "int list"
  ptr :: nat
  ip :: nat
  input_pos :: nat
  output_buf :: "int list"

definition init_state :: state where
  "init_state = \<lparr>tape = replicate 30000 0, ptr = 0, ip = 0, input_pos = 0, output_buf = []\<rparr>"

text \<open>
  One pass through the \<open>if\<close>/\<open>elif\<close> chain of lines 55-81 for the instruction \<open>op\<close>, before
  \<open>ip += 1\<close>. \<open>steps\<close> is the counter after its increment (it is only used in the message of
  the bounds error).
\<close>

definition exec_op ::
  "(nat \<rightharpoonup> nat) \<Rightarrow> int list \<Rightarrow> int \<Rightarrow> nat \<Rightarrow> char \<Rightarrow> state \<Rightarrow> error + state" where
  "exec_op brackets input_bytes cell_size steps op s =
     (if op = CHR ''>'' then
        (let p = ptr s + 1 in
         Inr (s\<lparr>ptr := p,
                tape := (if p \<ge> length (tape s) then tape s @ replicate 1000 0 else tape s)\<rparr>))
      else if op = CHR ''<'' then
        (if ptr s = 0 then Inl (PointerBelowZero steps) else Inr (s\<lparr>ptr := ptr s - 1\<rparr>))
      else if \<not> ptr s < length (tape s) then Inl IndexError
      else if op = CHR ''+'' then
        (if cell_size = 0 then Inl ZeroDivisionError
         else Inr (s\<lparr>tape := (tape s)[ptr s := (tape s ! ptr s + 1) mod cell_size]\<rparr>))
      else if op = CHR ''-'' then
        (if cell_size = 0 then Inl ZeroDivisionError
         else Inr (s\<lparr>tape := (tape s)[ptr s := (tape s ! ptr s - 1) mod cell_size]\<rparr>))
      else if op = CHR ''.'' then
        (if 0 \<le> tape s ! ptr s \<and> tape s ! ptr s < 1114112
         then Inr (s\<lparr>output_buf := output_buf s @ [tape s ! ptr s]\<rparr>)
         else Inl ValueError)
      else if op = CHR '','' then
        (if input_pos s < length input_bytes
         then Inr (s\<lparr>tape := (tape s)[ptr s := input_bytes ! input_pos s],
                     input_pos := input_pos s + 1\<rparr>)
         else Inr (s\<lparr>tape := (tape s)[ptr s := 0]\<rparr>))
      else if op = CHR ''['' then
        (if tape s ! ptr s = 0
         then (case brackets (ip s) of None \<Rightarrow> Inl KeyError | Some j \<Rightarrow> Inr (s\<lparr>ip := j\<rparr>))
         else Inr s)
      else if op = CHR '']'' then
        (if tape s ! ptr s \<noteq> 0
         then (case brackets (ip s) of None \<Rightarrow> Inl KeyError | Some j \<Rightarrow> Inr (s\<lparr>ip := j\<rparr>))
         else Inr s)
      else Inr s)"

text \<open>
  The \<open>while\<close> loop of lines 48-82. It ends: every iteration that goes on has incremented
  \<open>steps\<close>, and none goes on once \<open>steps\<close> has passed \<open>max_steps\<close>.
\<close>

function exec_loop ::
  "char list \<Rightarrow> (nat \<rightharpoonup> nat) \<Rightarrow> int list \<Rightarrow> int \<Rightarrow> int \<Rightarrow> nat \<Rightarrow> state \<Rightarrow> error + state" where
  "exec_loop ops brackets input_bytes cell_size max_steps steps s =
     (if ip s < length ops then
        (if int (steps + 1) > max_steps then Inl (Exceeded max_steps (output_buf s))
         else
           (case exec_op brackets input_bytes cell_size (steps + 1) (ops ! ip s) s of
              Inl e \<Rightarrow> Inl e
            | Inr s' \<Rightarrow>
                exec_loop ops brackets input_bytes cell_size max_steps (steps + 1)
                  (s'\<lparr>ip := ip s' + 1\<rparr>)))
      else Inr s)"
  by pat_completeness auto
termination
  by (relation "measure (\<lambda>(ops, brackets, input_bytes, cell_size, max_steps, steps, s).
        nat (max_steps - int steps))") auto

declare exec_loop.simps [simp del]

text \<open>
  \<open>run_bf\<close>: the text is filtered, the brackets are matched, and only then is the loop run.
  \<open>input_str\<close> is a string of one-byte characters, which is what \<open>encode("latin-1")\<close>
  accepts; the result is the list of the code points that \<open>chr\<close> was applied to.
\<close>

definition run_bf :: "string \<Rightarrow> string \<Rightarrow> int \<Rightarrow> int \<Rightarrow> error + int list" where
  "run_bf code input_str cell_size max_steps =
     (let ops = filter is_op code in
      case match_brackets ops 0 [] Map.empty of
        Inl e \<Rightarrow> Inl e
      | Inr (stack, brackets) \<Rightarrow>
          (if stack \<noteq> [] then Inl (UnmatchedOpen (hd stack))
           else
             (case exec_loop ops brackets (map of_char input_str) cell_size max_steps 0 init_state of
                Inl e \<Rightarrow> Inl e
              | Inr s \<Rightarrow> Inr (output_buf s))))"

section \<open>The code generator (bf_codegen.py)\<close>

text \<open>The class \<open>BF\<close>: the list of emitted chunks and the tracked cursor.\<close>

record bf =
  code :: "string list"
  pos :: int

definition bf_init :: bf where
  "bf_init = \<lparr>code = [], pos = 0\<rparr>"

text \<open>Python's \<open>s * n\<close> on a one-character string: empty when \<open>n \<le> 0\<close>.\<close>

definition times :: "char \<Rightarrow> int \<Rightarrow> string" where
  "times c n = replicate (nat n) c"

definition emit :: "string \<Rightarrow> bf \<Rightarrow> bf" where
  "emit chunk b = b\<lparr>code := code b @ [chunk]\<rparr>"

definition goto :: "int \<Rightarrow> bf \<Rightarrow> bf" where
  "goto cell b =
     (let diff = cell - pos b in
      (if diff > 0 then emit (times CHR ''>'' diff) b
       else if diff < 0 then emit (times CHR ''<'' (- diff)) b
       else b)\<lparr>pos := cell\<rparr>)"

definition inc :: "int \<Rightarrow> int \<Rightarrow> bf \<Rightarrow> bf" where
  "inc cell n b = emit (times CHR ''+'' n) (goto cell b)"

definition dec :: "int \<Rightarrow> int \<Rightarrow> bf \<Rightarrow> bf" where
  "dec cell n b = emit (times CHR ''-'' n) (goto cell b)"

definition clear :: "int \<Rightarrow> bf \<Rightarrow> bf" where
  "clear cell b = emit ''[-]'' (goto cell b)"

definition read :: "int \<Rightarrow> bf \<Rightarrow> bf" where
  "read cell b = emit '','' (goto cell b)"

definition bf_write :: "int \<Rightarrow> bf \<Rightarrow> bf" where
  "bf_write cell b = emit ''.'' (goto cell b)"

definition loop_open :: "int \<Rightarrow> bf \<Rightarrow> bf" where
  "loop_open cell b = emit ''['' (goto cell b)"

definition loop_close :: "int \<Rightarrow> bf \<Rightarrow> bf" where
  "loop_close cell b = emit '']'' (goto cell b)"

definition move :: "int \<Rightarrow> int \<Rightarrow> bf \<Rightarrow> bf" where
  "move src dst b =
     emit '']'' (goto src (emit ''+'' (goto dst (emit ''[-'' (goto src b)))))"

definition copy :: "int \<Rightarrow> int \<Rightarrow> int \<Rightarrow> bf \<Rightarrow> bf" where
  "copy src dst tmp b =
     move tmp src
       (emit '']'' (goto src (emit ''+'' (goto tmp (emit ''+'' (goto dst
          (emit ''[-'' (goto src b))))))))"

definition multiply :: "int \<Rightarrow> int \<Rightarrow> int \<Rightarrow> int \<Rightarrow> bf \<Rightarrow> bf" where
  "multiply a b' result tmp b =
     emit '']'' (goto a (move tmp b'
       (emit '']'' (goto b' (emit ''+'' (goto tmp (emit ''+'' (goto result
          (emit ''[-'' (goto b' (emit ''[-'' (goto a b))))))))))))"

definition divmod_10 :: "int \<Rightarrow> bf \<Rightarrow> bf" where
  "divmod_10 base b =
     clear (base + 2)
       ((emit ''[->-[>+>>]>[+[-<+>]>+>>]<<<<<]''
          ((emit ''>'' (goto base (inc (base + 2) 10 b)))\<lparr>pos := base + 1\<rparr>))\<lparr>pos := base + 1\<rparr>)"

text \<open>A method body: the calls on \<open>self\<close>, one after the other.\<close>

definition stmts :: "(bf \<Rightarrow> bf) list \<Rightarrow> bf \<Rightarrow> bf" where
  "stmts fs b = fold (\<lambda>f b'. f b') fs b"

definition print_number :: "int \<Rightarrow> int \<Rightarrow> bf \<Rightarrow> bf" where
  "print_number val_cell ws = stmts [
     move val_cell (ws + 1), divmod_10 ws,
     move (ws + 4) (ws + 7), divmod_10 (ws + 6),
     inc (ws + 12) 1, inc (ws + 13) 1,
     loop_open (ws + 10),
       dec (ws + 12) 1, dec (ws + 13) 1,
       inc (ws + 10) 48, bf_write (ws + 10), clear (ws + 10),
       inc (ws + 9) 48, bf_write (ws + 9), clear (ws + 9),
       inc (ws + 3) 48, bf_write (ws + 3), clear (ws + 3),
     loop_close (ws + 10),
     loop_open (ws + 12),
       dec (ws + 12) 1,
       loop_open (ws + 9),
         dec (ws + 13) 1,
         inc (ws + 9) 48, bf_write (ws + 9), clear (ws + 9),
         inc (ws + 3) 48, bf_write (ws + 3), clear (ws + 3),
       loop_close (ws + 9),
       loop_open (ws + 13),
         dec (ws + 13) 1,
         inc (ws + 3) 48, bf_write (ws + 3), clear (ws + 3),
       loop_close (ws + 13),
     loop_close (ws + 12)]"

definition bf_output :: "bf \<Rightarrow> string" where
  "bf_output b = filter is_op (concat (code b))"

definition generate :: string where
  "generate = bf_output
    (stmts [read 0, clear 0, read 0,
      dec 0 32,
      inc 1 1,
      loop_open 0, dec 1 1, clear 0, loop_close 0,
      inc 6 1,
      loop_open 1, dec 6 1, dec 1 1, inc 0 1, loop_close 1,
      loop_open 6,
        dec 6 1,
        inc 1 48, bf_write 1, clear 1,
        inc 1 10, bf_write 1, clear 1,
      loop_close 6,
      inc 3 1,
      loop_open 0,
        dec 0 1,
        read 2, dec 2 48,
        multiply 2 3 4 5,
        print_number 4 7,
        inc 3 1,
        read 1, dec 1 32,
        inc 6 1,
        loop_open 1,
          dec 6 1, clear 1,
          inc 1 10, bf_write 1, clear 1,
        loop_close 1,
        loop_open 6,
          dec 6 1, inc 0 1,
          inc 1 32, bf_write 1, clear 1,
        loop_close 6,
      loop_close 0] bf_init)"

section \<open>Balanced bracket sequences\<close>

text \<open>
  The nesting depth after a sequence of instructions read from depth \<open>d\<close>; \<open>None\<close> when a
  \<open>]\<close> is met at depth 0. A sequence is balanced when it takes depth 0 to depth 0.
\<close>

fun depth :: "char list \<Rightarrow> nat \<Rightarrow> nat option" where
  "depth [] d = Some d"
| "depth (c # cs) d =
     (if c = CHR ''['' then depth cs (d + 1)
      else if c = CHR '']'' then (if d = 0 then None else depth cs (d - 1))
      else depth cs d)"

definition balanced :: "char list \<Rightarrow> bool" where
  "balanced ops = (depth ops 0 = Some 0)"


section \<open>What a failure carries\<close>

text \<open>
  The part of the output a failure's message holds: only the message of the step budget
  (\<open>Exceeded ... steps. Output so far: ...\<close>) has it.
\<close>

fun partial_output :: "error \<Rightarrow> int list option" where
  "partial_output (Exceeded m out) = Some out"
| "partial_output _ = None"

section \<open>Structured programs\<close>

text \<open>
  An instruction sequence with its loops made explicit: \<open>Op c p\<close> is the instruction \<open>c\<close>
  (one of \<open>> < + - . ,\<close>) followed by \<open>p\<close>, \<open>Loop b p\<close> is \<open>[ b ]\<close> followed by \<open>p\<close>.
  \<open>flatten\<close> gives the instructions back.
\<close>

datatype prog = Done | Op char prog | Loop prog prog

fun flatten :: "prog \<Rightarrow> char list" where
  "flatten Done = []"
| "flatten (Op c p) = c # flatten p"
| "flatten (Loop b p) = CHR ''['' # flatten b @ CHR '']'' # flatten p"

fun seq :: "prog \<Rightarrow> prog \<Rightarrow> prog" where
  "seq Done q = q"
| "seq (Op c p) q = Op c (seq p q)"
| "seq (Loop b p) q = Loop b (seq p q)"

definition simple :: "char \<Rightarrow> bool" where
  "simple c = (c \<in> set ''><+-.,'')"

fun wf :: "prog \<Rightarrow> bool" where
  "wf Done = True"
| "wf (Op c p) = (simple c \<and> wf p)"
| "wf (Loop b p) = (wf b \<and> wf p)"

text \<open>Straight-line code: the instructions of a string, then \<open>p\<close>.\<close>

fun ops_of :: "string \<Rightarrow> prog \<Rightarrow> prog" where
  "ops_of [] p = p"
| "ops_of (c # cs) p = Op c (ops_of cs p)"

text \<open>
  The machine's view of a program placed at position \<open>i\<close> of the instruction list: every
  instruction is where \<open>flatten\<close> puts it and the jump table pairs the brackets of each loop.
\<close>

fun placed :: "char list \<Rightarrow> (nat \<rightharpoonup> nat) \<Rightarrow> nat \<Rightarrow> prog \<Rightarrow> bool" where
  "placed ops br i Done = True"
| "placed ops br i (Op c p) = (i < length ops \<and> ops ! i = c \<and> placed ops br (i + 1) p)"
| "placed ops br i (Loop b p) =
     (let j = i + 1 + length (flatten b) in
      i < length ops \<and> ops ! i = CHR ''['' \<and> j < length ops \<and> ops ! j = CHR '']'' \<and>
      br i = Some j \<and> br j = Some i \<and> placed ops br (i + 1) b \<and> placed ops br (j + 1) p)"

text \<open>The jump table after the pre-pass has gone through the program \<open>p\<close> placed at \<open>i\<close>.\<close>

fun table :: "nat \<Rightarrow> prog \<Rightarrow> (nat \<rightharpoonup> nat) \<Rightarrow> (nat \<rightharpoonup> nat)" where
  "table i Done br = br"
| "table i (Op c p) br = table (i + 1) p br"
| "table i (Loop b p) br =
     (let j = i + 1 + length (flatten b) in table (j + 1) p ((table (i + 1) b br)(i \<mapsto> j, j \<mapsto> i)))"

text \<open>
  Big-step execution, counting the machine's steps: \<open>big inp cs p s n s'\<close> when \<open>p\<close>, started
  in \<open>s\<close>, ends in \<open>s'\<close> after \<open>n\<close> instructions, none of which fails. A loop is tested once on
  entry and once after each pass through its body, each test being one instruction (the \<open>[\<close>
  first, the \<open>]\<close> afterwards).
\<close>

inductive big :: "int list \<Rightarrow> int \<Rightarrow> prog \<Rightarrow> state \<Rightarrow> nat \<Rightarrow> state \<Rightarrow> bool"
  for inp :: "int list" and cs :: int where
  big_Done: "big inp cs Done s 0 s"
| big_Op: "simple c \<Longrightarrow> exec_op Map.empty inp cs 0 c s = Inr s1 \<Longrightarrow> big inp cs p s1 n s2 \<Longrightarrow>
     big inp cs (Op c p) s (Suc n) s2"
| big_Skip: "ptr s < length (tape s) \<Longrightarrow> tape s ! ptr s = 0 \<Longrightarrow> big inp cs p s n s2 \<Longrightarrow>
     big inp cs (Loop b p) s (Suc n) s2"
| big_Iter: "ptr s < length (tape s) \<Longrightarrow> tape s ! ptr s \<noteq> 0 \<Longrightarrow> big inp cs b s nb s1 \<Longrightarrow>
     big inp cs (Loop b p) s1 n s2 \<Longrightarrow> big inp cs (Loop b p) s (Suc (nb + n)) s2"

text \<open>
  \<open>wp inp cs p s u Q\<close>: with \<open>u\<close> steps used so far, \<open>p\<close> started in \<open>s\<close> ends, and
  \<open>Q\<close> holds of the steps used by then and of the final state.
\<close>

definition wp :: "int list \<Rightarrow> int \<Rightarrow> prog \<Rightarrow> state \<Rightarrow> nat \<Rightarrow> (nat \<Rightarrow> state \<Rightarrow> bool) \<Rightarrow> bool" where
  "wp inp cs p s u Q = (\<exists>n s'. big inp cs p s n s' \<and> Q (u + n) s')"

section \<open>The macros as structured programs\<close>

text \<open>
  What \<open>_goto\<close> emits to go from cell \<open>p\<close> to cell \<open>c\<close> (one of the two runs is empty), and the
  loops of \<open>clear\<close> and \<open>move\<close>, each followed by a continuation \<open>k\<close>.
\<close>

definition go :: "nat \<Rightarrow> nat \<Rightarrow> prog \<Rightarrow> prog" where
  "go p c k = ops_of (replicate (c - p) CHR ''>'') (ops_of (replicate (p - c) CHR ''<'') k)"

definition dist :: "nat \<Rightarrow> nat \<Rightarrow> nat" where
  "dist p c = (c - p) + (p - c)"

definition clearP :: "prog \<Rightarrow> prog" where
  "clearP k = Loop (Op CHR ''-'' Done) k"

definition moveP :: "nat \<Rightarrow> nat \<Rightarrow> prog \<Rightarrow> prog" where
  "moveP src dst k = Loop (Op CHR ''-'' (go src dst (Op CHR ''+'' (go dst src Done)))) k"

text \<open>
  The loops \<open>multiply\<close> emits, entered with the pointer on \<open>a\<close>: the inner loop adds \<open>b\<close> to
  \<open>result\<close> and to \<open>tmp\<close>, \<open>move\<close> brings \<open>tmp\<close> back to \<open>b\<close>.
\<close>

definition addP :: "nat \<Rightarrow> nat \<Rightarrow> nat \<Rightarrow> prog \<Rightarrow> prog" where
  "addP b r t k =
     Loop (Op CHR ''-'' (go b r (Op CHR ''+'' (go r t (Op CHR ''+'' (go t b Done)))))) k"

definition multiplyP :: "nat \<Rightarrow> nat \<Rightarrow> nat \<Rightarrow> nat \<Rightarrow> prog \<Rightarrow> prog" where
  "multiplyP a b r t k =
     Loop (Op CHR ''-'' (go a b (addP b r t (go b t (moveP t b (go t a Done)))))) k"

text \<open>The steps of the loops, as the machine counts them.\<close>

definition move_steps :: "nat \<Rightarrow> nat \<Rightarrow> nat \<Rightarrow> nat" where
  "move_steps src dst v = 1 + v * (3 + 2 * dist src dst)"

definition add_steps :: "nat \<Rightarrow> nat \<Rightarrow> nat \<Rightarrow> nat \<Rightarrow> nat" where
  "add_steps b r t v = 1 + v * (4 + dist b r + dist r t + dist t b)"

definition multiply_steps :: "nat \<Rightarrow> nat \<Rightarrow> nat \<Rightarrow> nat \<Rightarrow> nat \<Rightarrow> nat \<Rightarrow> nat" where
  "multiply_steps a b r t x y =
     1 + x * (2 + dist a b + add_steps b r t y + dist b t + move_steps t b y + dist t a)"

text \<open>
  The loop of \<open>divmod_10\<close>, \<open>[->-[>+>>]>[+[-<+>]>+>>]<<<<<]\<close>, entered with the pointer on the
  dividend, and its steps when the dividend is \<open>n\<close> and the remainder cell holds \<open>r\<close>.
\<close>

definition divP :: "prog \<Rightarrow> prog" where
  "divP k =
     Loop (ops_of ''->-''
             (Loop (ops_of ''>+>>'' Done)
                (Op CHR ''>''
                   (Loop (Op CHR ''+'' (Loop (ops_of ''-<+>'' Done) (ops_of ''>+>>'' Done)))
                      (ops_of ''<<<<<'' Done))))) k"

fun div_steps :: "nat \<Rightarrow> nat \<Rightarrow> nat" where
  "div_steps 0 r = 1"
| "div_steps (Suc n) r =
     (if r = 9 then 69 + div_steps n 0 else 17 + div_steps n (Suc r))"

text \<open>
  \<open>divmod_10(base)\<close> emitted with the cursor at \<open>p0\<close>: the divisor is set, the pointer goes
  to \<open>base\<close> and one cell right, the loop runs, the divisor cell is cleared.
\<close>

definition divmodP :: "nat \<Rightarrow> nat \<Rightarrow> prog \<Rightarrow> prog" where
  "divmodP p0 base k =
     go p0 (base + 2) (ops_of (replicate 10 CHR ''+'')
       (go (base + 2) base (Op CHR ''>'' (divP (go (base + 1) (base + 2) (clearP k))))))"

definition divmod_steps :: "nat \<Rightarrow> nat \<Rightarrow> nat \<Rightarrow> nat" where
  "divmod_steps p0 base n =
     dist p0 (base + 2) + 13 + div_steps n 0 + 1 + (2 * (10 - n mod 10) + 1)"

text \<open>
  \<open>inc(c, n); write(c); clear(c)\<close> emitted with the cursor at \<open>p\<close>, and \<open>print_number\<close>
  emitted with the cursor at \<open>p0\<close>.
\<close>

definition putP :: "nat \<Rightarrow> nat \<Rightarrow> nat \<Rightarrow> prog \<Rightarrow> prog" where
  "putP p c n k = go p c (ops_of (replicate n CHR ''+'') (Op CHR ''.'' (clearP k)))"

definition put_steps :: "nat \<Rightarrow> nat \<Rightarrow> nat \<Rightarrow> nat \<Rightarrow> nat" where
  "put_steps p c n x = dist p c + n + 1 + (2 * (x + n) + 1)"

definition digitsP :: "nat \<Rightarrow> nat \<Rightarrow> nat \<Rightarrow> prog \<Rightarrow> prog" where
  "digitsP p0 val ws k =
     go p0 val (moveP val (ws + 1) (divmodP val ws
       (go (ws + 2) (ws + 4) (moveP (ws + 4) (ws + 7) (divmodP (ws + 4) (ws + 6) k)))))"

definition branchesP :: "nat \<Rightarrow> prog \<Rightarrow> prog" where
  "branchesP ws k =
     go (ws + 8) (ws + 12) (Op CHR ''+'' (go (ws + 12) (ws + 13) (Op CHR ''+''
       (go (ws + 13) (ws + 10)
         (Loop (go (ws + 10) (ws + 12) (Op CHR ''-'' (go (ws + 12) (ws + 13) (Op CHR ''-''
                  (putP (ws + 13) (ws + 10) 48 (putP (ws + 10) (ws + 9) 48
                    (putP (ws + 9) (ws + 3) 48 (go (ws + 3) (ws + 10) Done))))))))
           (go (ws + 10) (ws + 12)
             (Loop (Op CHR ''-'' (go (ws + 12) (ws + 9)
                      (Loop (go (ws + 9) (ws + 13) (Op CHR ''-''
                               (putP (ws + 13) (ws + 9) 48
                                 (putP (ws + 9) (ws + 3) 48 (go (ws + 3) (ws + 9) Done)))))
                         (go (ws + 9) (ws + 13)
                           (Loop (Op CHR ''-''
                                    (putP (ws + 13) (ws + 3) 48 (go (ws + 3) (ws + 13) Done)))
                              (go (ws + 13) (ws + 12) Done))))))
                k)))))))"

definition printP :: "nat \<Rightarrow> nat \<Rightarrow> nat \<Rightarrow> prog \<Rightarrow> prog" where
  "printP p0 val ws k = digitsP p0 val ws (branchesP ws k)"

definition digits_steps :: "nat \<Rightarrow> nat \<Rightarrow> nat \<Rightarrow> nat \<Rightarrow> nat" where
  "digits_steps p0 val ws v =
     dist p0 val + move_steps val (ws + 1) v + divmod_steps val ws v + 2 +
     move_steps (ws + 4) (ws + 7) (v div 10) + divmod_steps (ws + 4) (ws + 6) (v div 10)"

definition branches_steps :: "nat \<Rightarrow> nat \<Rightarrow> nat \<Rightarrow> nat \<Rightarrow> nat" where
  "branches_steps ws h t o' =
     10 +
     (if h \<noteq> 0 then
        6 + put_steps (ws + 13) (ws + 10) 48 h + put_steps (ws + 10) (ws + 9) 48 t +
        put_steps (ws + 9) (ws + 3) 48 o' + 11
      else
        8 +
        (if t \<noteq> 0 then
           6 + put_steps (ws + 13) (ws + 9) 48 t + put_steps (ws + 9) (ws + 3) 48 o' + 12
         else
           7 + put_steps (ws + 13) (ws + 3) 48 o' + 11) + 2)"

definition print_steps :: "nat \<Rightarrow> nat \<Rightarrow> nat \<Rightarrow> nat \<Rightarrow> nat" where
  "print_steps p0 val ws v =
     digits_steps p0 val ws v + branches_steps ws (v div 100) (v div 10 mod 10) (v mod 10)"

text \<open>The decimal digits of a number, as character codes, without leading zeros.\<close>

fun decimal :: "nat \<Rightarrow> int list" where
  "decimal n = (if n < 10 then [48 + int n] else decimal (n div 10) @ [48 + int (n mod 10)])"

declare decimal.simps [simp del]

section \<open>Running emitted code on a given machine state\<close>

text \<open>
  The two phases of \<open>run_bf\<close> with the execution phase started in a state \<open>s\<close> instead of
  the initial one, returning the final state: what running the code of one macro on a
  prepared tape is.
\<close>

definition run_from :: "string \<Rightarrow> int list \<Rightarrow> int \<Rightarrow> int \<Rightarrow> state \<Rightarrow> error + state" where
  "run_from program input_bytes cell_size max_steps s =
     (let ops = filter is_op program in
      case match_brackets ops 0 [] Map.empty of
        Inl e \<Rightarrow> Inl e
      | Inr (stack, brackets) \<Rightarrow>
          (if stack \<noteq> [] then Inl (UnmatchedOpen (hd stack))
           else exec_loop ops brackets input_bytes cell_size max_steps 0 s))"

text \<open>A fresh emitter whose cursor is at \<open>p0\<close>.\<close>

definition bf_at :: "int \<Rightarrow> bf" where
  "bf_at p0 = \<lparr>code = [], pos = p0\<rparr>"

text \<open>The number a string of decimal digit codes denotes.\<close>

definition digits_value :: "int list \<Rightarrow> int" where
  "digits_value ds = foldl (\<lambda>a d. 10 * a + (d - 48)) 0 ds"

section \<open>The generated program, structured\<close>

text \<open>
  The loops of \<open>generate\<close>, with the cells of its memory layout: the two tests of the first
  separator, the answer for a constant polynomial, the two tests of a later separator, the body
  of the main loop, and the whole program.
\<close>

definition not_spaceP :: prog where
  "not_spaceP = go 0 1 (Op CHR ''-'' (go 1 0 (clearP Done)))"

definition was_spaceP :: prog where
  "was_spaceP = go 1 6 (Op CHR ''-'' (go 6 1 (Op CHR ''-'' (go 1 0 (Op CHR ''+'' (go 0 1 Done))))))"

definition constantP :: prog where
  "constantP = Op CHR ''-'' (putP 6 1 48 (putP 1 1 10 (go 1 6 Done)))"

definition newlineP :: prog where
  "newlineP = go 1 6 (Op CHR ''-'' (go 6 1 (clearP (putP 1 1 10 Done))))"

definition spaceP :: prog where
  "spaceP = Op CHR ''-'' (go 6 0 (Op CHR ''+'' (putP 0 1 32 (go 1 6 Done))))"

definition bodyP :: prog where
  "bodyP =
     Op CHR ''-'' (go 0 2 (Op CHR '','' (ops_of (replicate 48 CHR ''-'')
       (multiplyP 2 3 4 5 (printP 2 4 7
         (go 19 3 (Op CHR ''+'' (go 3 1 (Op CHR '','' (ops_of (replicate 32 CHR ''-'')
           (go 1 6 (Op CHR ''+'' (go 6 1
             (Loop newlineP (go 1 6 (Loop spaceP (go 6 0 Done)))))))))))))))))"

definition startP :: "prog \<Rightarrow> prog" where
  "startP k =
     Op CHR '','' (clearP (Op CHR '','' (ops_of (replicate 32 CHR ''-'')
       (go 0 1 (Op CHR ''+'' (go 1 0
         (Loop not_spaceP (go 0 6 (Op CHR ''+'' (go 6 1
           (Loop was_spaceP (go 1 6
             (Loop constantP (go 6 3 (Op CHR ''+'' (go 3 0 k))))))))))))))))"

definition mainP :: prog where
  "mainP = startP (Loop bodyP Done)"

section \<open>Input and expected output of the calculator\<close>

text \<open>
  The input text for the coefficients \<open>c0 ... ck\<close> (digits separated by single spaces, then a
  newline), and the output the specification asks for: the decimal numbers \<open>c1*1 ... ck*k\<close>
  separated by single spaces, then a newline.
\<close>

definition digit :: "nat \<Rightarrow> char" where
  "digit d = char_of (48 + d)"

fun coeffs :: "nat list \<Rightarrow> string" where
  "coeffs [] = []"
| "coeffs [c] = [digit c]"
| "coeffs (c # cs) = digit c # CHR '' '' # coeffs cs"

definition poly_input :: "nat list \<Rightarrow> string" where
  "poly_input cs = coeffs cs @ [CHR 0x0A]"

definition derivative :: "nat list \<Rightarrow> nat list" where
  "derivative cs = map (\<lambda>(c, i). c * i) (zip (tl cs) [1..<length cs])"

fun spaced :: "int list list \<Rightarrow> int list" where
  "spaced [] = []"
| "spaced [x] = x"
| "spaced (x # xs) = x @ 32 # spaced xs"

definition expected_output :: "nat list \<Rightarrow> int list" where
  "expected_output cs = spaced (map decimal (derivative cs)) @ [10]"

text \<open>
  The same seen from inside the main loop, when the coefficients \<open>ds\<close> from degree \<open>i\<close> on are
  still to be read at input position \<open>q\<close>: the digits are in range and their products fit a
  cell, the input holds them, and this is what is printed.
\<close>

fun small :: "nat \<Rightarrow> nat list \<Rightarrow> bool" where
  "small i [] = True"
| "small i (c # cs) = (c < 10 \<and> c * i \<le> 255 \<and> small (Suc i) cs)"

fun input_at :: "int list \<Rightarrow> nat \<Rightarrow> nat list \<Rightarrow> bool" where
  "input_at inp q [] = True"
| "input_at inp q [c] = (q + 1 < length inp \<and> inp ! q = 48 + int c \<and> inp ! (q + 1) = 10)"
| "input_at inp q (c # cs) =
     (q + 1 < length inp \<and> inp ! q = 48 + int c \<and> inp ! (q + 1) = 32 \<and> input_at inp (q + 2) cs)"

fun out_from :: "nat \<Rightarrow> nat list \<Rightarrow> int list" where
  "out_from i [] = []"
| "out_from i [c] = decimal (c * i) @ [10]"
| "out_from i (c # cs) = decimal (c * i) @ 32 # out_from (Suc i) cs"

text \<open>The steps of one pass through the main loop's body, of the loop, and of the program.\<close>

definition body_steps :: "nat \<Rightarrow> nat \<Rightarrow> bool \<Rightarrow> nat" where
  "body_steps i c final =
     multiply_steps 2 3 4 5 c (i mod 256) + print_steps 2 4 7 (c * i) +
     (if final then 641 else 241)"

fun loop_steps :: "nat \<Rightarrow> nat list \<Rightarrow> nat" where
  "loop_steps i [] = 1"
| "loop_steps i [c] = 2 + body_steps i c True"
| "loop_steps i (c # cs) = 1 + body_steps i c False + loop_steps (Suc i) cs"

text \<open>
  The machine at the head of the main loop: a tape of \<open>L\<close> cells, zero but for the flag \<open>a\<close> in
  cell 0 and the degree \<open>i\<close> (modulo 256) in cell 3, the pointer on cell 0.
\<close>

definition loop_state :: "nat \<Rightarrow> int \<Rightarrow> nat \<Rightarrow> nat \<Rightarrow> int list \<Rightarrow> state" where
  "loop_state L a i q out =
     \<lparr>tape = (replicate L 0)[0 := a, 3 := int (i mod 256)], ptr = 0, ip = 0,
      input_pos = q, output_buf = out\<rparr>"

fun main_steps :: "nat list \<Rightarrow> nat" where
  "main_steps [] = 0"
| "main_steps (c0 # ds) = 177 + 2 * c0 + loop_steps 1 ds"

text \<open>
  The steps of the program on a constant polynomial, whose first byte is \<open>b0\<close> and whose second
  byte, not a space, is \<open>t\<close>.
\<close>

definition constant_steps :: "int \<Rightarrow> int \<Rightarrow> nat" where
  "constant_steps b0 t = 261 + 2 * nat b0 + 2 * nat ((t - 32) mod 256)"

section \<open>The cursor of the emitter and the pointer of the machine\<close>

text \<open>
  What an instruction adds to the data pointer, and the sum of it over the first \<open>i\<close>
  instructions of a program: where a cursor that only counts the motion instructions would be.
\<close>

definition shift :: "char \<Rightarrow> int" where
  "shift c = (if c = CHR ''>'' then 1 else if c = CHR ''<'' then - 1 else 0)"



text \<open>
  The motion of a structured program whose loop bodies all come back to the cell they start
  from; \<open>None\<close> when some loop body does not.
\<close>

fun net :: "prog \<Rightarrow> int option" where
  "net Done = Some 0"
| "net (Op c p) = map_option (\<lambda>d. shift c + d) (net p)"
| "net (Loop b p) = (if net b = Some 0 then net p else None)"

text \<open>\<open>copy(src, dst, tmp)\<close> emitted with the cursor at \<open>src\<close>.\<close>

definition copyP :: "nat \<Rightarrow> nat \<Rightarrow> nat \<Rightarrow> prog \<Rightarrow> prog" where
  "copyP src dst tmp k =
     Loop (Op CHR ''-'' (go src dst (Op CHR ''+'' (go dst tmp (Op CHR ''+'' (go tmp src Done))))))
       (go src tmp (moveP tmp src k))"



section \<open>The bracket pre-pass\<close>

lemma depth_append:
  "depth (xs @ ys) d = (case depth xs d of None \<Rightarrow> None | Some m \<Rightarrow> depth ys m)"
  by (induction xs arbitrary: d) auto

lemma depth_None_split:
  "depth ops d = None \<Longrightarrow> \<exists>w rest. ops = w @ CHR '']'' # rest \<and> depth w d = Some 0"
proof (induction ops arbitrary: d)
  case Nil
  then show ?case by simp
next
  case (Cons c cs)
  show ?case
  proof (cases "c = CHR '']'' \<and> d = 0")
    case True
    then have "c # cs = [] @ CHR '']'' # cs \<and> depth [] d = Some 0" by simp
    then show ?thesis by blast
  next
    case False
    then obtain d' where d': "depth cs d' = None" "\<And>w. depth w d' = Some 0 \<Longrightarrow> depth (c # w) d = Some 0"
      using Cons.prems by (auto split: if_splits)
    from Cons.IH[OF d'(1)] obtain w rest where "cs = w @ CHR '']'' # rest" "depth w d' = Some 0"
      by blast
    then have "c # cs = (c # w) @ CHR '']'' # rest \<and> depth (c # w) d = Some 0"
      using d'(2) by simp
    then show ?thesis by blast
  qed
qed

lemma depth_Some_split:
  "depth ops d = Some d' \<Longrightarrow>
     (\<exists>w0 w1. ops = w0 @ CHR ''['' # w1 \<and> balanced w1) \<or> (\<exists>k\<le>d. d' = d - k \<and> depth ops k = Some 0)"
proof (induction ops arbitrary: d d')
  case Nil
  then show ?case by auto
next
  case (Cons c cs)
  consider (op) "c = CHR ''[''" | (cl) "c = CHR '']''" | (other) "c \<noteq> CHR ''[''" "c \<noteq> CHR '']''"
    by blast
  then show ?case
  proof cases
    case op
    with Cons.prems have "depth cs (d + 1) = Some d'" by simp
    from Cons.IH[OF this] show ?thesis
    proof
      assume "\<exists>w0 w1. cs = w0 @ CHR ''['' # w1 \<and> balanced w1"
      then obtain w0 w1 where "c # cs = (c # w0) @ CHR ''['' # w1" "balanced w1" by auto
      then show ?thesis by blast
    next
      assume "\<exists>k\<le>d + 1. d' = d + 1 - k \<and> depth cs k = Some 0"
      then obtain k where k: "k \<le> d + 1" "d' = d + 1 - k" "depth cs k = Some 0" by blast
      show ?thesis
      proof (cases k)
        case 0
        with k op have "c # cs = [] @ CHR ''['' # cs \<and> balanced cs" by (simp add: balanced_def)
        then show ?thesis by blast
      next
        case (Suc k')
        with k op have "k' \<le> d \<and> d' = d - k' \<and> depth (c # cs) k' = Some 0" by simp
        then show ?thesis by blast
      qed
    qed
  next
    case cl
    with Cons.prems have d: "d \<noteq> 0" "depth cs (d - 1) = Some d'" by (auto split: if_splits)
    from Cons.IH[OF d(2)] show ?thesis
    proof
      assume "\<exists>w0 w1. cs = w0 @ CHR ''['' # w1 \<and> balanced w1"
      then obtain w0 w1 where "c # cs = (c # w0) @ CHR ''['' # w1" "balanced w1" by auto
      then show ?thesis by blast
    next
      assume "\<exists>k\<le>d - 1. d' = d - 1 - k \<and> depth cs k = Some 0"
      then obtain k where k: "k \<le> d - 1" "d' = d - 1 - k" "depth cs k = Some 0" by blast
      with cl d have "Suc k \<le> d \<and> d' = d - Suc k \<and> depth (c # cs) (Suc k) = Some 0" by simp
      then show ?thesis by blast
    qed
  next
    case other
    with Cons.prems have "depth cs d = Some d'" by simp
    from Cons.IH[OF this] show ?thesis
    proof
      assume "\<exists>w0 w1. cs = w0 @ CHR ''['' # w1 \<and> balanced w1"
      then obtain w0 w1 where "c # cs = (c # w0) @ CHR ''['' # w1" "balanced w1" by auto
      then show ?thesis by blast
    next
      assume "\<exists>k\<le>d. d' = d - k \<and> depth cs k = Some 0"
      then obtain k where k: "k \<le> d" "d' = d - k" "depth cs k = Some 0" by blast
      with other have "k \<le> d \<and> d' = d - k \<and> depth (c # cs) k = Some 0" by simp
      then show ?thesis by blast
    qed
  qed
qed

text \<open>
  Scanning a segment that needs the top \<open>k\<close> entries of the stack and leaves \<open>m\<close> in their
  place.
\<close>

lemma match_brackets_segment:
  "depth w k = Some m \<Longrightarrow> k \<le> length st \<Longrightarrow>
   \<exists>st1 br'. length st1 = m \<and>
     match_brackets (w @ rest) i st br = match_brackets rest (i + length w) (st1 @ drop k st) br'"
proof (induction w arbitrary: i st br k)
  case Nil
  then have "length (take k st) = m \<and>
     match_brackets ([] @ rest) i st br = match_brackets rest (i + length ([]::char list)) (take k st @ drop k st) br"
    by simp
  then show ?case by blast
next
  case (Cons c w)
  consider (op) "c = CHR ''[''" | (cl) "c = CHR '']''" | (other) "c \<noteq> CHR ''[''" "c \<noteq> CHR '']''"
    by blast
  then show ?case
  proof cases
    case op
    with Cons.prems have "depth w (k + 1) = Some m" "k + 1 \<le> length (i # st)" by auto
    from Cons.IH[OF this, of "i + 1" br] op show ?thesis by simp
  next
    case cl
    with Cons.prems have k: "k \<noteq> 0" "depth w (k - 1) = Some m" by (auto split: if_splits)
    with Cons.prems obtain j st' where st: "st = j # st'" by (cases st) auto
    with k Cons.prems have "k - 1 \<le> length st'" by simp
    from Cons.IH[OF k(2) this, of "i + 1" "br(j \<mapsto> i, i \<mapsto> j)"]
    obtain st1 br' where 1: "length st1 = m"
      "match_brackets (w @ rest) (i + 1) st' (br(j \<mapsto> i, i \<mapsto> j)) =
       match_brackets rest (i + 1 + length w) (st1 @ drop (k - 1) st') br'" by blast
    have "drop k st = drop (k - 1) st'" using k(1) st by (cases k) auto
    with 1 cl st have "length st1 = m \<and> match_brackets ((c # w) @ rest) i st br =
       match_brackets rest (i + length (c # w)) (st1 @ drop k st) br'"
      by (simp del: fun_upd_apply)
    then show ?thesis by blast
  next
    case other
    with Cons.prems have "depth w k = Some m" by simp
    from Cons.IH[OF this Cons.prems(2), of "i + 1" br] other show ?thesis by simp
  qed
qed

lemma match_brackets_close:
  assumes "balanced w"
  shows "match_brackets (w @ CHR '']'' # rest) 0 [] Map.empty = Inl (UnmatchedClose (length w))"
  using match_brackets_segment[of w 0 0 "[]" "CHR '']'' # rest" 0 Map.empty] assms
  by (auto simp: balanced_def)

lemma match_brackets_open:
  assumes "depth w0 0 = Some m" "balanced w1"
  shows "\<exists>st br. match_brackets (w0 @ CHR ''['' # w1) 0 [] Map.empty = Inr (length w0 # st, br)"
proof -
  from match_brackets_segment[OF assms(1), of "[]" "CHR ''['' # w1" 0 Map.empty]
  obtain st1 br1 where 1: "match_brackets (w0 @ CHR ''['' # w1) 0 [] Map.empty =
      match_brackets (CHR ''['' # w1) (length w0) st1 br1" by auto
  from assms(2) have "depth w1 0 = Some 0" by (simp add: balanced_def)
  from match_brackets_segment[OF this, of "length w0 # st1" "[]" "length w0 + 1" br1]
  obtain br2 where "match_brackets w1 (length w0 + 1) (length w0 # st1) br1 = Inr (length w0 # st1, br2)"
    by auto
  with 1 show ?thesis by simp
qed

lemma match_brackets_balanced:
  assumes "balanced ops"
  shows "\<exists>br. match_brackets ops 0 [] Map.empty = Inr ([], br)"
  using match_brackets_segment[of ops 0 0 "[]" "[]" 0 Map.empty] assms
  by (auto simp: balanced_def)


section \<open>Errors of the execution phase\<close>

lemma exec_op_error:
  "exec_op br inp cs st c s = Inl e \<Longrightarrow>
     e = PointerBelowZero st \<or> e = ZeroDivisionError \<or> e = ValueError \<or> e = IndexError \<or> e = KeyError"
  unfolding exec_op_def by (simp split: if_splits option.splits add: Let_def)

lemma exec_loop_error:
  "exec_loop ops br inp cs m st s = Inl e \<Longrightarrow>
     (\<exists>out. e = Exceeded m out) \<or> (\<exists>k. e = PointerBelowZero k) \<or>
     e = ZeroDivisionError \<or> e = ValueError \<or> e = IndexError \<or> e = KeyError"
proof (induction ops br inp cs m st s rule: exec_loop.induct)
  case (1 ops br inp cs m st s)
  show ?case
  proof (cases "ip s < length ops \<and> \<not> int (st + 1) > m")
    case False
    with "1.prems" show ?thesis
      by (subst (asm) exec_loop.simps) (auto split: if_splits)
  next
    case True
    show ?thesis
    proof (cases "exec_op br inp cs (st + 1) (ops ! ip s) s")
      case (Inl e')
      with True "1.prems" have "e = e'" by (subst (asm) exec_loop.simps) simp
      with exec_op_error[OF Inl] show ?thesis by blast
    next
      case (Inr s')
      with True "1.prems" have
        "exec_loop ops br inp cs m (st + 1) (s'\<lparr>ip := ip s' + 1\<rparr>) = Inl e"
        by (subst (asm) exec_loop.simps) simp
      with "1.IH"[of s'] True Inr show ?thesis by simp
    qed
  qed
qed

lemma run_bf_balanced:
  assumes "balanced (filter is_op program)"
  shows "\<exists>br. run_bf program inp cs m =
     (case exec_loop (filter is_op program) br (map of_char inp) cs m 0 init_state of
        Inl e \<Rightarrow> Inl e | Inr s \<Rightarrow> Inr (output_buf s))"
proof -
  from match_brackets_balanced[OF assms] obtain br where
    "match_brackets (filter is_op program) 0 [] Map.empty = Inr ([], br)" by blast
  then have "run_bf program inp cs m =
     (case exec_loop (filter is_op program) br (map of_char inp) cs m 0 init_state of
        Inl e \<Rightarrow> Inl e | Inr s \<Rightarrow> Inr (output_buf s))"
    by (simp add: run_bf_def)
  then show ?thesis by blast
qed



section \<open>The output only grows\<close>

lemma match_brackets_error:
  "match_brackets ops i st br = Inl e \<Longrightarrow> \<exists>k. e = UnmatchedClose k"
  by (induction ops i st br rule: match_brackets.induct) (auto split: if_splits list.splits)

lemma exec_op_output:
  "exec_op br inp cs st c s = Inr s' \<Longrightarrow> \<exists>ys. output_buf s' = output_buf s @ ys"
  unfolding exec_op_def by (auto split: if_splits option.splits simp: Let_def)

lemma exec_loop_output:
  "(exec_loop ops br inp cs m st s = Inr s' \<longrightarrow> (\<exists>ys. output_buf s' = output_buf s @ ys)) \<and>
   (exec_loop ops br inp cs m st s = Inl (Exceeded m' out) \<longrightarrow> (\<exists>ys. out = output_buf s @ ys))"
proof (induction ops br inp cs m st s rule: exec_loop.induct)
  case (1 ops br inp cs m st s)
  show ?case
  proof (cases "ip s < length ops")
    case False
    then show ?thesis by (simp add: exec_loop.simps[of ops br inp cs m st s])
  next
    case run: True
    show ?thesis
    proof (cases "int (st + 1) > m")
      case True
      with run show ?thesis by (simp add: exec_loop.simps[of ops br inp cs m st s])
    next
      case False
      show ?thesis
      proof (cases "exec_op br inp cs (st + 1) (ops ! ip s) s")
        case (Inl e)
        with run False exec_op_error[OF Inl] show ?thesis
          by (auto simp add: exec_loop.simps[of ops br inp cs m st s])
      next
        case (Inr s1)
        from exec_op_output[OF Inr] obtain ys where ys: "output_buf s1 = output_buf s @ ys" by blast
        have eq: "exec_loop ops br inp cs m st s =
              exec_loop ops br inp cs m (st + 1) (s1\<lparr>ip := ip s1 + 1\<rparr>)"
          using run False Inr by (simp add: exec_loop.simps[of ops br inp cs m st s])
        from "1.IH"[OF run False Inr] ys eq show ?thesis by auto
      qed
    qed
  qed
qed

lemma exec_loop_budget_mono:
  "exec_loop ops br inp cs m st s = Inl (Exceeded m out) \<Longrightarrow> m \<le> m' \<Longrightarrow>
   (case exec_loop ops br inp cs m' st s of
      Inr s' \<Rightarrow> \<exists>ys. output_buf s' = out @ ys
    | Inl e \<Rightarrow> (case partial_output e of None \<Rightarrow> True | Some out' \<Rightarrow> \<exists>ys. out' = out @ ys))"
proof (induction ops br inp cs m st s rule: exec_loop.induct)
  case (1 ops br inp cs m st s)
  show ?case
  proof (cases "ip s < length ops")
    case False
    with "1.prems" show ?thesis by (simp add: exec_loop.simps[of ops br inp cs m st s])
  next
    case run: True
    show ?thesis
    proof (cases "int (st + 1) > m")
      case True
      with run "1.prems" have out: "out = output_buf s"
        by (simp add: exec_loop.simps[of ops br inp cs m st s])
      show ?thesis
      proof (cases "exec_loop ops br inp cs m' st s")
        case (Inr s')
        with exec_loop_output[of ops br inp cs m' st s s'] out show ?thesis by simp
      next
        case (Inl e)
        show ?thesis
        proof (cases e)
          case (Exceeded k out')
          from exec_loop_error[OF Inl] Exceeded have "k = m'" by simp
          with Inl Exceeded exec_loop_output[of ops br inp cs m' st s _ m' out'] out
          show ?thesis by simp
        qed (use Inl in simp_all)
      qed
    next
      case False
      show ?thesis
      proof (cases "exec_op br inp cs (st + 1) (ops ! ip s) s")
        case (Inl e)
        with run False "1.prems" exec_op_error[OF Inl] show ?thesis
          by (auto simp add: exec_loop.simps[of ops br inp cs m st s])
      next
        case (Inr s1)
        have eq: "exec_loop ops br inp cs k st s =
              exec_loop ops br inp cs k (st + 1) (s1\<lparr>ip := ip s1 + 1\<rparr>)" if "m \<le> k" for k
          using run False Inr that by (simp add: exec_loop.simps[of ops br inp cs k st s])
        from "1.IH"[OF run False Inr] "1.prems" eq[of m] eq[of m'] show ?thesis by simp
      qed
    qed
  qed
qed


section \<open>The interpreter follows the structured execution\<close>

lemma flatten_seq [simp]: "flatten (seq p q) = flatten p @ flatten q"
  by (induction p) auto

lemma flatten_ops_of [simp]: "flatten (ops_of cs p) = cs @ flatten p"
  by (induction cs) auto

lemma wf_seq [simp]: "wf (seq p q) = (wf p \<and> wf q)"
  by (induction p) auto

lemma wf_ops_of [simp]: "wf (ops_of cs p) = ((\<forall>c\<in>set cs. simple c) \<and> wf p)"
  by (induction cs) auto

lemma simple_not_bracket: "simple c \<Longrightarrow> c \<noteq> CHR ''['' \<and> c \<noteq> CHR '']''"
  by (auto simp: simple_def)

lemma match_brackets_table:
  "wf p \<Longrightarrow> match_brackets (flatten p @ rest) i st br =
     match_brackets rest (i + length (flatten p)) st (table i p br)"
proof (induction p arbitrary: i st br rest)
  case Done
  show ?case by simp
next
  case (Op c p)
  then show ?case using simple_not_bracket[of c] by simp
next
  case (Loop b p)
  have "match_brackets (flatten (Loop b p) @ rest) i st br =
        match_brackets (flatten b @ (CHR '']'' # flatten p @ rest)) (i + 1) (i # st) br"
    by simp
  also have "\<dots> = match_brackets (CHR '']'' # flatten p @ rest) (i + 1 + length (flatten b)) (i # st)
       (table (i + 1) b br)"
    using Loop.IH(1)[of "CHR '']'' # flatten p @ rest" "i + 1" "i # st" br] Loop.prems by simp
  also have "\<dots> = match_brackets (flatten p @ rest) (i + 1 + length (flatten b) + 1) st
       ((table (i + 1) b br)(i \<mapsto> i + 1 + length (flatten b), i + 1 + length (flatten b) \<mapsto> i))"
    by (simp del: fun_upd_apply)
  also have "\<dots> = match_brackets rest (i + length (flatten (Loop b p))) st (table i (Loop b p) br)"
    using Loop.IH(2)[of rest "i + 1 + length (flatten b) + 1" st] Loop.prems
    by (simp add: Let_def add.assoc del: fun_upd_apply)
  finally show ?case .
qed

lemma table_outside:
  "k < i \<or> i + length (flatten p) \<le> k \<Longrightarrow> table i p br k = br k"
proof (induction p arbitrary: i br)
  case (Loop b p)
  then show ?case by (auto simp: Let_def)
qed auto

lemma placed_cong:
  "placed ops br i p \<Longrightarrow> (\<And>k. i \<le> k \<Longrightarrow> k < i + length (flatten p) \<Longrightarrow> br' k = br k) \<Longrightarrow>
   placed ops br' i p"
proof (induction p arbitrary: i)
  case (Loop b p)
  from Loop.prems(1) have 1: "placed ops br (i + 1) b"
    and 2: "placed ops br (i + 1 + length (flatten b) + 1) p"
    by (simp_all add: Let_def)
  have "placed ops br' (i + 1) b" using Loop.IH(1)[OF 1] Loop.prems(2) by simp
  moreover have "placed ops br' (i + 1 + length (flatten b) + 1) p"
    using Loop.IH(2)[OF 2] Loop.prems(2) by simp
  moreover have "br' i = br i" "br' (i + 1 + length (flatten b)) = br (i + 1 + length (flatten b))"
    using Loop.prems(2) by simp_all
  ultimately show ?case using Loop.prems(1) by (simp add: Let_def)
qed auto

lemma placed_table:
  "wf p \<Longrightarrow> placed (pre @ flatten p @ post) (table (length pre) p br) (length pre) p"
proof (induction p arbitrary: pre post br)
  case Done
  show ?case by simp
next
  case (Op c p)
  from Op.IH[of "pre @ [c]" post br] Op.prems show ?case by simp
next
  case (Loop b p)
  let ?i = "length pre"
  let ?j = "?i + 1 + length (flatten b)"
  let ?ops = "pre @ flatten (Loop b p) @ post"
  let ?br1 = "table (?i + 1) b br"
  let ?br2 = "?br1(?i \<mapsto> ?j, ?j \<mapsto> ?i)"
  let ?T = "table (?j + 1) p ?br2"
  have T: "table ?i (Loop b p) br = ?T" by (simp add: Let_def)
  have ops1: "?ops = (pre @ [CHR ''['']) @ flatten b @ (CHR '']'' # flatten p @ post)" by simp
  have ops2: "?ops = (pre @ CHR ''['' # flatten b @ [CHR '']'']) @ flatten p @ post" by simp
  have b1: "placed ?ops ?br1 (?i + 1) b"
    using Loop.IH(1)[of "pre @ [CHR ''['']" "CHR '']'' # flatten p @ post" br] Loop.prems
    by (simp only: ops1) simp
  have b: "placed ?ops ?T (?i + 1) b"
  proof (rule placed_cong[OF b1])
    fix k assume "?i + 1 \<le> k" "k < ?i + 1 + length (flatten b)"
    then show "?T k = ?br1 k" by (simp add: table_outside)
  qed
  have p: "placed ?ops ?T (?j + 1) p"
    using Loop.IH(2)[of "pre @ CHR ''['' # flatten b @ [CHR '']'']" post ?br2] Loop.prems
    by (simp only: ops2) (simp del: fun_upd_apply)
  have i: "?ops ! ?i = CHR ''[''" by simp
  have j: "?ops ! ?j = CHR '']''"
    by (simp add: nth_append)
  have Ti: "?T ?i = Some ?j" "?T ?j = Some ?i" by (simp_all add: table_outside)
  from b p i j Ti show ?case
    by (simp only: T placed.simps Let_def) simp
qed

lemma exec_op_simple:
  "simple c \<Longrightarrow> exec_op Map.empty inp cs 0 c s = Inr s1 \<Longrightarrow>
   exec_op br inp cs st c (s\<lparr>ip := i\<rparr>) = Inr (s1\<lparr>ip := i\<rparr>)"
proof -
  assume "simple c" and r: "exec_op Map.empty inp cs 0 c s = Inr s1"
  then consider "c = CHR ''>''" | "c = CHR ''<''" | "c = CHR ''+''" | "c = CHR ''-''"
    | "c = CHR ''.''" | "c = CHR '',''"
    by (auto simp: simple_def)
  then show ?thesis
  proof cases
    case 1 with r show ?thesis by (auto simp: exec_op_def Let_def)
  next
    case 2 with r show ?thesis by (auto simp: exec_op_def split: if_splits)
  next
    case 3 with r show ?thesis by (auto simp: exec_op_def split: if_splits)
  next
    case 4 with r show ?thesis by (auto simp: exec_op_def split: if_splits)
  next
    case 5 with r show ?thesis by (auto simp: exec_op_def split: if_splits)
  next
    case 6 with r show ?thesis by (auto simp: exec_op_def split: if_splits)
  qed
qed

lemma exec_loop_close_eq_open:
  assumes "placed ops br i (Loop b p)"
  shows "exec_loop ops br inp cs m st (s\<lparr>ip := i + 1 + length (flatten b)\<rparr>) =
         exec_loop ops br inp cs m st (s\<lparr>ip := i\<rparr>)"
proof -
  define j where "j = i + 1 + length (flatten b)"
  from assms have f: "i < length ops" "ops ! i = CHR ''[''" "j < length ops" "ops ! j = CHR '']''"
    "br i = Some j" "br j = Some i"
    by (simp_all add: Let_def j_def)
  have "exec_loop ops br inp cs m st (s\<lparr>ip := j\<rparr>) = exec_loop ops br inp cs m st (s\<lparr>ip := i\<rparr>)"
    using f
    by (simp add: exec_loop.simps[of ops br inp cs m st "s\<lparr>ip := j\<rparr>"]
        exec_loop.simps[of ops br inp cs m st "s\<lparr>ip := i\<rparr>"] exec_op_def)
  then show ?thesis by (simp add: j_def)
qed

lemma exec_loop_big:
  "big inp cs p s n s' \<Longrightarrow> placed ops br i p \<Longrightarrow> int (st + n) \<le> m \<Longrightarrow>
   exec_loop ops br inp cs m st (s\<lparr>ip := i\<rparr>) =
   exec_loop ops br inp cs m (st + n) (s'\<lparr>ip := i + length (flatten p)\<rparr>)"
proof (induction arbitrary: i st rule: big.induct)
  case (big_Done s)
  show ?case by simp
next
  case (big_Op c s s1 p n s2)
  from big_Op.prems have c: "i < length ops" "ops ! i = c" and p: "placed ops br (i + 1) p"
    by simp_all
  have "exec_loop ops br inp cs m st (s\<lparr>ip := i\<rparr>) =
        exec_loop ops br inp cs m (st + 1) (s1\<lparr>ip := i + 1\<rparr>)"
    using c big_Op.prems(2) exec_op_simple[OF big_Op.hyps(1,2), of br "st + 1" i]
    by (simp add: exec_loop.simps[of ops br inp cs m st "s\<lparr>ip := i\<rparr>"])
  also have "\<dots> = exec_loop ops br inp cs m (st + 1 + n) (s2\<lparr>ip := i + 1 + length (flatten p)\<rparr>)"
    using big_Op.IH[OF p, of "st + 1"] big_Op.prems(2) by simp
  finally show ?case by simp
next
  case (big_Skip s p n s2 b)
  let ?j = "i + 1 + length (flatten b)"
  from big_Skip.prems have c: "i < length ops" "ops ! i = CHR ''[''" "br i = Some ?j"
    and p: "placed ops br (?j + 1) p"
    by (simp_all add: Let_def)
  have "exec_loop ops br inp cs m st (s\<lparr>ip := i\<rparr>) =
        exec_loop ops br inp cs m (st + 1) (s\<lparr>ip := ?j + 1\<rparr>)"
    using c big_Skip.prems(2) big_Skip.hyps(1,2)
    by (simp add: exec_loop.simps[of ops br inp cs m st "s\<lparr>ip := i\<rparr>"] exec_op_def)
  also have "\<dots> = exec_loop ops br inp cs m (st + 1 + n) (s2\<lparr>ip := ?j + 1 + length (flatten p)\<rparr>)"
    using big_Skip.IH[OF p, of "st + 1"] big_Skip.prems(2) by simp
  finally show ?case by (simp add: ac_simps)
next
  case (big_Iter s b nb s1 p n s2)
  let ?j = "i + 1 + length (flatten b)"
  from big_Iter.prems have c: "i < length ops" "ops ! i = CHR ''[''"
    and b: "placed ops br (i + 1) b"
    by (simp_all add: Let_def)
  have "exec_loop ops br inp cs m st (s\<lparr>ip := i\<rparr>) =
        exec_loop ops br inp cs m (st + 1) (s\<lparr>ip := i + 1\<rparr>)"
    using c big_Iter.prems(2) big_Iter.hyps(1,2)
    by (simp add: exec_loop.simps[of ops br inp cs m st "s\<lparr>ip := i\<rparr>"] exec_op_def)
  also have "\<dots> = exec_loop ops br inp cs m (st + 1 + nb) (s1\<lparr>ip := ?j\<rparr>)"
    using big_Iter.IH(1)[OF b, of "st + 1"] big_Iter.prems(2) by simp
  also have "\<dots> = exec_loop ops br inp cs m (st + 1 + nb) (s1\<lparr>ip := i\<rparr>)"
    by (rule exec_loop_close_eq_open[OF big_Iter.prems(1)])
  also have "\<dots> = exec_loop ops br inp cs m (st + 1 + nb + n)
      (s2\<lparr>ip := i + length (flatten (Loop b p))\<rparr>)"
    using big_Iter.IH(2)[OF big_Iter.prems(1), of "st + 1 + nb"] big_Iter.prems(2) by simp
  finally show ?case by (simp add: add.assoc)
qed

lemma run_bf_big:
  assumes "wf p" and "filter is_op program = flatten p"
    and "big (map of_char inp) cs p init_state n s'" and "int n \<le> m"
  shows "run_bf program inp cs m = Inr (output_buf s')"
proof -
  let ?ops = "flatten p"
  let ?br = "table 0 p Map.empty"
  have mb: "match_brackets ?ops 0 [] Map.empty = Inr ([], ?br)"
    using match_brackets_table[OF assms(1), of "[]" 0 "[]" Map.empty] by simp
  have pl: "placed ?ops ?br 0 p"
    using placed_table[OF assms(1), of "[]" "[]" Map.empty] by simp
  have i0: "init_state\<lparr>ip := 0\<rparr> = init_state" by (simp add: init_state_def)
  have "exec_loop ?ops ?br (map of_char inp) cs m 0 init_state =
        exec_loop ?ops ?br (map of_char inp) cs m (0 + n) (s'\<lparr>ip := 0 + length ?ops\<rparr>)"
    using exec_loop_big[OF assms(3) pl, of 0 m] assms(4) i0 by simp
  also have "\<dots> = Inr (s'\<lparr>ip := length ?ops\<rparr>)"
    by (simp add: exec_loop.simps[of ?ops ?br _ cs m n "s'\<lparr>ip := length ?ops\<rparr>"])
  finally show ?thesis using mb assms(2) by (simp add: run_bf_def)
qed


section \<open>Rules of the structured execution\<close>

inductive_cases big_DoneE: "big inp cs Done s n s'"
inductive_cases big_OpE: "big inp cs (Op c p) s n s'"
inductive_cases big_LoopE: "big inp cs (Loop b p) s n s'"

lemma big_seq:
  "big inp cs p s n s1 \<Longrightarrow> big inp cs q s1 k s2 \<Longrightarrow> big inp cs (seq p q) s (n + k) s2"
proof (induction rule: big.induct)
  case (big_Done s)
  then show ?case by simp
next
  case (big_Op c s s1 p n s2')
  from big.big_Op[OF big_Op.hyps(1,2) big_Op.IH[OF big_Op.prems]] show ?case by simp
next
  case (big_Skip s p n s2' b)
  from big.big_Skip[OF big_Skip.hyps(1,2) big_Skip.IH[OF big_Skip.prems]] show ?case by simp
next
  case (big_Iter s b nb s1 p n s2')
  from big_Iter.IH(2)[OF big_Iter.prems] have "big inp cs (Loop b (seq p q)) s1 (n + k) s2" by simp
  from big.big_Iter[OF big_Iter.hyps(1,2,3) this] show ?case by (simp add: add.assoc)
qed

lemma big_det:
  "big inp cs p s n s' \<Longrightarrow> big inp cs p s n' s'' \<Longrightarrow> n' = n \<and> s'' = s'"
proof (induction arbitrary: n' s'' rule: big.induct)
  case (big_Done s)
  then show ?case by (auto elim: big_DoneE)
next
  case (big_Op c s s1 p n s2)
  from big_Op.prems big_Op.hyps(2) obtain k where "big inp cs p s1 k s''" "n' = Suc k"
    by (auto elim: big_OpE)
  with big_Op.IH[of k s''] show ?case by simp
next
  case (big_Skip s p n s2 b)
  from big_Skip.prems big_Skip.hyps(1,2) obtain k where "big inp cs p s k s''" "n' = Suc k"
    by (auto elim: big_LoopE)
  with big_Skip.IH[of k s''] show ?case by simp
next
  case (big_Iter s b nb s1 p n s2)
  from big_Iter.prems big_Iter.hyps(1,2) obtain kb t k where
    k: "big inp cs b s kb t" "big inp cs (Loop b p) t k s''" "n' = Suc (kb + k)"
    by (auto elim: big_LoopE)
  from big_Iter.IH(1)[OF k(1)] have "kb = nb" "t = s1" by simp_all
  with big_Iter.IH(2)[of k s''] k show ?case by simp
qed

lemma big_seq_split:
  "big inp cs r s m s' \<Longrightarrow> r = seq p q \<Longrightarrow>
   \<exists>n k s1. big inp cs p s n s1 \<and> big inp cs q s1 k s' \<and> m = n + k"
proof (induction arbitrary: p rule: big.induct)
  case (big_Done s)
  then have "p = Done" "q = Done" by (cases p; simp)+
  then show ?case using big.big_Done[of inp cs s] by fastforce
next
  case (big_Op c s s1 r n s2)
  show ?case
  proof (cases p)
    case Done
    with big_Op.prems have "q = Op c r" by simp
    with Done big.big_Op[OF big_Op.hyps(1,2,3)] big.big_Done[of inp cs s] show ?thesis
      by fastforce
  next
    case (Op c' p')
    with big_Op.prems have e: "c' = c" "r = seq p' q" by simp_all
    from big_Op.IH[OF e(2)] obtain n1 k s1' where
      "big inp cs p' s1 n1 s1'" "big inp cs q s1' k s2" "n = n1 + k" by blast
    with big.big_Op[OF big_Op.hyps(1,2), of p' n1 s1'] Op e
    have "big inp cs p s (Suc n1) s1' \<and> big inp cs q s1' k s2 \<and> Suc n = Suc n1 + k" by simp
    then show ?thesis by blast
  next
    case (Loop b' p')
    with big_Op.prems show ?thesis by simp
  qed
next
  case (big_Skip s r n s2 b)
  show ?case
  proof (cases p)
    case Done
    with big_Skip.prems have "q = Loop b r" by simp
    with Done big.big_Skip[OF big_Skip.hyps(1,2,3), of b] big.big_Done[of inp cs s] show ?thesis
      by fastforce
  next
    case (Op c' p')
    with big_Skip.prems show ?thesis by simp
  next
    case (Loop b' p')
    with big_Skip.prems have e: "b' = b" "r = seq p' q" by simp_all
    from big_Skip.IH[OF e(2)] obtain n1 k s1' where
      "big inp cs p' s n1 s1'" "big inp cs q s1' k s2" "n = n1 + k" by blast
    with big.big_Skip[OF big_Skip.hyps(1,2), of inp cs p' n1 s1' b] Loop e
    have "big inp cs p s (Suc n1) s1' \<and> big inp cs q s1' k s2 \<and> Suc n = Suc n1 + k" by simp
    then show ?thesis by blast
  qed
next
  case (big_Iter s b nb s1 r n s2)
  show ?case
  proof (cases p)
    case Done
    with big_Iter.prems have "q = Loop b r" by simp
    with Done big.big_Iter[OF big_Iter.hyps(1,2,3,4)] big.big_Done[of inp cs s] show ?thesis
      by fastforce
  next
    case (Op c' p')
    with big_Iter.prems show ?thesis by simp
  next
    case (Loop b' p')
    with big_Iter.prems have e: "b' = b" "Loop b r = seq (Loop b p') q" by simp_all
    from big_Iter.IH(2)[OF e(2)] obtain n1 k s1' where
      "big inp cs (Loop b p') s1 n1 s1'" "big inp cs q s1' k s2" "n = n1 + k" by blast
    with big.big_Iter[OF big_Iter.hyps(1,2,3), of p' n1 s1'] Loop e
    have "big inp cs p s (Suc (nb + n1)) s1' \<and> big inp cs q s1' k s2 \<and>
       Suc (nb + n) = Suc (nb + n1) + k" by simp
    then show ?thesis by blast
  qed
qed

lemma big_wp: "big inp cs p s n s' = wp inp cs p s 0 (\<lambda>N t. N = n \<and> t = s')"
  by (auto simp: wp_def)

lemma wp_Done [simp]: "wp inp cs Done s u Q = Q u s"
proof
  assume "wp inp cs Done s u Q"
  then obtain n s' where "big inp cs Done s n s'" "Q (u + n) s'" by (auto simp: wp_def)
  then show "Q u s" by (auto elim: big_DoneE)
next
  assume "Q u s"
  then have "big inp cs Done s 0 s \<and> Q (u + 0) s" by (simp add: big_Done)
  then show "wp inp cs Done s u Q" unfolding wp_def by blast
qed

lemma wp_Op:
  assumes "simple c"
  shows "wp inp cs (Op c p) s u Q =
     (case exec_op Map.empty inp cs 0 c s of Inl e \<Rightarrow> False | Inr s1 \<Rightarrow> wp inp cs p s1 (Suc u) Q)"
proof
  assume "wp inp cs (Op c p) s u Q"
  then obtain n s' where b: "big inp cs (Op c p) s n s'" and Q: "Q (u + n) s'"
    by (auto simp: wp_def)
  from b obtain s1 n' where "exec_op Map.empty inp cs 0 c s = Inr s1" "big inp cs p s1 n' s'"
    "n = Suc n'" by (auto elim: big_OpE)
  with Q show "case exec_op Map.empty inp cs 0 c s of Inl e \<Rightarrow> False
      | Inr s1 \<Rightarrow> wp inp cs p s1 (Suc u) Q"
    by (auto simp: wp_def)
next
  assume r: "case exec_op Map.empty inp cs 0 c s of Inl e \<Rightarrow> False
      | Inr s1 \<Rightarrow> wp inp cs p s1 (Suc u) Q"
  then obtain s1 where s1: "exec_op Map.empty inp cs 0 c s = Inr s1" by (auto split: sum.splits)
  with r obtain n s' where "big inp cs p s1 n s'" "Q (Suc u + n) s'" by (auto simp: wp_def)
  with big_Op[OF assms s1, of p n s'] have "big inp cs (Op c p) s (Suc n) s' \<and> Q (u + Suc n) s'"
    by simp
  then show "wp inp cs (Op c p) s u Q" unfolding wp_def by blast
qed

lemma wp_Skip:
  assumes "ptr s < length (tape s)" "tape s ! ptr s = 0"
  shows "wp inp cs (Loop b p) s u Q = wp inp cs p s (Suc u) Q"
proof
  assume "wp inp cs (Loop b p) s u Q"
  then obtain n s' where b: "big inp cs (Loop b p) s n s'" and Q: "Q (u + n) s'"
    by (auto simp: wp_def)
  from b assms obtain n' where "big inp cs p s n' s'" "n = Suc n'"
    by (auto elim: big_LoopE)
  with Q show "wp inp cs p s (Suc u) Q" by (auto simp: wp_def)
next
  assume "wp inp cs p s (Suc u) Q"
  then obtain n s' where n: "big inp cs p s n s'" "Q (Suc u + n) s'" by (auto simp: wp_def)
  from big_Skip[OF assms(1) _ n(1), of b] assms(2) n(2)
  have "big inp cs (Loop b p) s (Suc n) s' \<and> Q (u + Suc n) s'" by simp
  then show "wp inp cs (Loop b p) s u Q" unfolding wp_def by blast
qed

lemma wp_seq:
  assumes "big inp cs p s n s1"
  shows "wp inp cs (seq p q) s u Q = wp inp cs q s1 (u + n) Q"
proof
  assume "wp inp cs (seq p q) s u Q"
  then obtain m s' where m: "big inp cs (seq p q) s m s'" "Q (u + m) s'"
    by (auto simp: wp_def)
  from big_seq_split[OF m(1) refl] obtain n' k t where
    t: "big inp cs p s n' t" "big inp cs q t k s'" "m = n' + k" by blast
  from big_det[OF assms t(1)] have "n' = n" "t = s1" by simp_all
  with t m have "big inp cs q s1 k s' \<and> Q (u + n + k) s'" by (simp add: add.assoc)
  then show "wp inp cs q s1 (u + n) Q" unfolding wp_def by blast
next
  assume "wp inp cs q s1 (u + n) Q"
  then obtain k s' where k: "big inp cs q s1 k s'" "Q (u + n + k) s'"
    by (auto simp: wp_def)
  from big_seq[OF assms k(1)] k(2)
  have "big inp cs (seq p q) s (n + k) s' \<and> Q (u + (n + k)) s'" by (simp add: add.assoc)
  then show "wp inp cs (seq p q) s u Q" unfolding wp_def by blast
qed

lemma wp_Loop:
  assumes "big inp cs (Loop b Done) s n s1"
  shows "wp inp cs (Loop b q) s u Q = wp inp cs q s1 (u + n) Q"
  using wp_seq[OF assms, of q u Q] by simp

lemma wp_unfold:
  assumes "ptr s < length (tape s)" "tape s ! ptr s \<noteq> 0"
  shows "wp inp cs (Loop b q) s u Q = wp inp cs (seq b (Loop b q)) s (Suc u) Q"
proof
  assume "wp inp cs (Loop b q) s u Q"
  then obtain m s' where m: "big inp cs (Loop b q) s m s'" "Q (u + m) s'"
    by (auto simp: wp_def)
  from m(1) assms obtain nb t k where
    k: "big inp cs b s nb t" "big inp cs (Loop b q) t k s'" "m = Suc (nb + k)"
    by (auto elim: big_LoopE)
  from big_seq[OF k(1,2)] k(3) m(2)
  have "big inp cs (seq b (Loop b q)) s (nb + k) s' \<and> Q (Suc u + (nb + k)) s'" by simp
  then show "wp inp cs (seq b (Loop b q)) s (Suc u) Q" unfolding wp_def by blast
next
  assume "wp inp cs (seq b (Loop b q)) s (Suc u) Q"
  then obtain m s' where m: "big inp cs (seq b (Loop b q)) s m s'" "Q (Suc u + m) s'"
    by (auto simp: wp_def)
  from big_seq_split[OF m(1) refl] obtain nb k t where
    t: "big inp cs b s nb t" "big inp cs (Loop b q) t k s'" "m = nb + k" by blast
  from big_Iter[OF assms(1) _ t(1,2)] assms(2) t(3) m(2)
  have "big inp cs (Loop b q) s (Suc (nb + k)) s' \<and> Q (u + Suc (nb + k)) s'"
    by simp
  then show "wp inp cs (Loop b q) s u Q" unfolding wp_def by blast
qed


section \<open>Instructions, runs of one instruction, and the clearing loop\<close>

lemma seq_Done [simp]: "seq p Done = p"
  by (induction p) auto

lemma wp_right:
  "ptr s + 1 < length (tape s) \<Longrightarrow>
   wp inp cs (Op CHR ''>'' p) s u Q = wp inp cs p (s\<lparr>ptr := ptr s + 1\<rparr>) (Suc u) Q"
  by (simp add: wp_Op simple_def exec_op_def Let_def)

lemma wp_left:
  "0 < ptr s \<Longrightarrow>
   wp inp cs (Op CHR ''<'' p) s u Q = wp inp cs p (s\<lparr>ptr := ptr s - 1\<rparr>) (Suc u) Q"
  by (simp add: wp_Op simple_def exec_op_def)

lemma wp_plus:
  "ptr s < length (tape s) \<Longrightarrow> cs \<noteq> 0 \<Longrightarrow>
   wp inp cs (Op CHR ''+'' p) s u Q =
   wp inp cs p (s\<lparr>tape := (tape s)[ptr s := (tape s ! ptr s + 1) mod cs]\<rparr>) (Suc u) Q"
  by (simp add: wp_Op simple_def exec_op_def)

lemma wp_minus:
  "ptr s < length (tape s) \<Longrightarrow> cs \<noteq> 0 \<Longrightarrow>
   wp inp cs (Op CHR ''-'' p) s u Q =
   wp inp cs p (s\<lparr>tape := (tape s)[ptr s := (tape s ! ptr s - 1) mod cs]\<rparr>) (Suc u) Q"
  by (simp add: wp_Op simple_def exec_op_def)

lemma wp_out:
  "ptr s < length (tape s) \<Longrightarrow> 0 \<le> tape s ! ptr s \<Longrightarrow> tape s ! ptr s < 1114112 \<Longrightarrow>
   wp inp cs (Op CHR ''.'' p) s u Q =
   wp inp cs p (s\<lparr>output_buf := output_buf s @ [tape s ! ptr s]\<rparr>) (Suc u) Q"
  by (simp add: wp_Op simple_def exec_op_def)

lemma wp_in:
  "ptr s < length (tape s) \<Longrightarrow> input_pos s < length inp \<Longrightarrow>
   wp inp cs (Op CHR '','' p) s u Q =
   wp inp cs p (s\<lparr>tape := (tape s)[ptr s := inp ! input_pos s],
                   input_pos := input_pos s + 1\<rparr>) (Suc u) Q"
  by (simp add: wp_Op simple_def exec_op_def)

lemma wp_in_eof:
  "ptr s < length (tape s) \<Longrightarrow> \<not> input_pos s < length inp \<Longrightarrow>
   wp inp cs (Op CHR '','' p) s u Q =
   wp inp cs p (s\<lparr>tape := (tape s)[ptr s := 0]\<rparr>) (Suc u) Q"
  by (simp add: wp_Op simple_def exec_op_def)

lemmas wp_ops = wp_right wp_left wp_plus wp_minus wp_out wp_in wp_in_eof

lemma wp_rights:
  "ptr s + n < length (tape s) \<Longrightarrow>
   wp inp cs (ops_of (replicate n CHR ''>'') p) s u Q = wp inp cs p (s\<lparr>ptr := ptr s + n\<rparr>) (u + n) Q"
proof (induction n arbitrary: s u)
  case 0
  show ?case by simp
next
  case (Suc n)
  from Suc.prems Suc.IH[of "s\<lparr>ptr := ptr s + 1\<rparr>" "Suc u"] show ?case
    by (simp add: wp_right)
qed

lemma wp_lefts:
  "n \<le> ptr s \<Longrightarrow>
   wp inp cs (ops_of (replicate n CHR ''<'') p) s u Q = wp inp cs p (s\<lparr>ptr := ptr s - n\<rparr>) (u + n) Q"
proof (induction n arbitrary: s u)
  case 0
  show ?case by simp
next
  case (Suc n)
  from Suc.prems Suc.IH[of "s\<lparr>ptr := ptr s - 1\<rparr>" "Suc u"] show ?case
    by (simp add: wp_left)
qed

lemma wp_pluses:
  "ptr s < length (tape s) \<Longrightarrow> cs \<noteq> 0 \<Longrightarrow> 0 < n \<Longrightarrow>
   wp inp cs (ops_of (replicate n CHR ''+'') p) s u Q =
   wp inp cs p (s\<lparr>tape := (tape s)[ptr s := (tape s ! ptr s + int n) mod cs]\<rparr>) (u + n) Q"
proof (induction n arbitrary: s u)
  case 0
  then show ?case by simp
next
  case (Suc n)
  show ?case
  proof (cases "n = 0")
    case True
    with Suc.prems show ?thesis by (simp add: wp_plus)
  next
    case False
    have "((tape s ! ptr s + 1) mod cs + int n) mod cs = (tape s ! ptr s + int (Suc n)) mod cs"
      by (subst mod_add_left_eq) (simp add: algebra_simps)
    with False Suc.prems Suc.IH[of "s\<lparr>tape := (tape s)[ptr s := (tape s ! ptr s + 1) mod cs]\<rparr>" "Suc u"]
    show ?thesis by (simp add: wp_plus)
  qed
qed

lemma wp_minuses:
  "ptr s < length (tape s) \<Longrightarrow> cs \<noteq> 0 \<Longrightarrow> 0 < n \<Longrightarrow>
   wp inp cs (ops_of (replicate n CHR ''-'') p) s u Q =
   wp inp cs p (s\<lparr>tape := (tape s)[ptr s := (tape s ! ptr s - int n) mod cs]\<rparr>) (u + n) Q"
proof (induction n arbitrary: s u)
  case 0
  then show ?case by simp
next
  case (Suc n)
  show ?case
  proof (cases "n = 0")
    case True
    with Suc.prems show ?thesis by (simp add: wp_minus)
  next
    case False
    have "((tape s ! ptr s - 1) mod cs - int n) mod cs = (tape s ! ptr s - int (Suc n)) mod cs"
      by (subst mod_diff_left_eq) (simp add: algebra_simps)
    with False Suc.prems Suc.IH[of "s\<lparr>tape := (tape s)[ptr s := (tape s ! ptr s - 1) mod cs]\<rparr>" "Suc u"]
    show ?thesis by (simp add: wp_minus)
  qed
qed

lemma wp_go:
  "ptr s = p \<Longrightarrow> c < length (tape s) \<Longrightarrow>
   wp inp cs (go p c k) s u Q = wp inp cs k (s\<lparr>ptr := c\<rparr>) (u + dist p c) Q"
proof (cases "p \<le> c")
  case True
  assume "ptr s = p" "c < length (tape s)"
  with True show ?thesis by (simp add: go_def dist_def wp_rights)
next
  case False
  assume "ptr s = p" "c < length (tape s)"
  with False show ?thesis by (simp add: go_def dist_def wp_lefts)
qed

lemma wp_big:
  assumes "big inp cs p s n s'"
  shows "wp inp cs p s u Q = Q (u + n) s'"
  using wp_seq[OF assms, of Done u Q] by simp

lemma clear_big:
  "ptr s < length (tape s) \<Longrightarrow> tape s ! ptr s = int v \<Longrightarrow> int v < cs \<Longrightarrow>
   big inp cs (clearP Done) s (2 * v + 1) (s\<lparr>tape := (tape s)[ptr s := 0]\<rparr>)"
proof (induction v arbitrary: s)
  case 0
  then have "s\<lparr>tape := (tape s)[ptr s := 0]\<rparr> = s"
    by (metis list_update_id of_nat_0 state.surjective state.update_convs(1))
  with 0 show ?case
    by (simp add: big_wp clearP_def wp_Skip)
next
  case (Suc v)
  let ?s1 = "s\<lparr>tape := (tape s)[ptr s := int v]\<rparr>"
  have "big inp cs (clearP Done) ?s1 (2 * v + 1) (?s1\<lparr>tape := (tape ?s1)[ptr ?s1 := 0]\<rparr>)"
    using Suc.prems by (intro Suc.IH) simp_all
  then have "big inp cs (clearP Done) ?s1 (2 * v + 1) (s\<lparr>tape := (tape s)[ptr s := 0]\<rparr>)"
    using Suc.prems by simp
  from wp_big[OF this] Suc.prems
  have "wp inp cs (clearP Done) s 0
      (\<lambda>N t. N = 2 * Suc v + 1 \<and> t = s\<lparr>tape := (tape s)[ptr s := 0]\<rparr>)"
    by (simp add: clearP_def wp_unfold wp_minus)
  then show ?case by (simp only: big_wp)
qed


section \<open>The loop of move\<close>

lemma seq_ops_of [simp]: "seq (ops_of xs k) q = ops_of xs (seq k q)"
  by (induction xs) auto

lemma seq_go [simp]: "seq (go p c k) q = go p c (seq k q)"
  by (simp add: go_def)

lemma seq_clearP [simp]: "seq (clearP k) q = clearP (seq k q)"
  by (simp add: clearP_def)

lemma seq_moveP [simp]: "seq (moveP src dst k) q = moveP src dst (seq k q)"
  by (simp add: moveP_def)

lemma wp_clear:
  "ptr s < length (tape s) \<Longrightarrow> 0 \<le> tape s ! ptr s \<Longrightarrow> tape s ! ptr s < cs \<Longrightarrow>
   wp inp cs (clearP k) s u Q =
   wp inp cs k (s\<lparr>tape := (tape s)[ptr s := 0]\<rparr>) (u + (2 * nat (tape s ! ptr s) + 1)) Q"
proof -
  assume a: "ptr s < length (tape s)" "0 \<le> tape s ! ptr s" "tape s ! ptr s < cs"
  then have "big inp cs (Loop (Op CHR ''-'' Done) Done) s (2 * nat (tape s ! ptr s) + 1)
      (s\<lparr>tape := (tape s)[ptr s := 0]\<rparr>)"
    using clear_big[of s "nat (tape s ! ptr s)" cs inp] by (simp add: clearP_def)
  from wp_Loop[OF this] show ?thesis by (simp add: clearP_def)
qed

lemma tape_eqI:
  "length a = length b \<Longrightarrow> (\<And>i. i < length a \<Longrightarrow> a ! i = b ! i) \<Longrightarrow> a = b"
  by (simp add: list_eq_iff_nth_eq)

lemma move_big:
  "ptr s = src \<Longrightarrow> src \<noteq> dst \<Longrightarrow> src < length (tape s) \<Longrightarrow> dst < length (tape s) \<Longrightarrow>
   tape s ! src = int v \<Longrightarrow> 0 \<le> tape s ! dst \<Longrightarrow> tape s ! dst + int v < cs \<Longrightarrow>
   big inp cs (moveP src dst Done) s (1 + v * (3 + 2 * dist src dst))
     (s\<lparr>tape := (tape s)[src := 0, dst := tape s ! dst + int v]\<rparr>)"
proof (induction v arbitrary: s)
  case 0
  then have "(tape s)[src := 0, dst := tape s ! dst + int 0] = tape s"
    by (intro tape_eqI) (auto simp: nth_list_update)
  then have "s\<lparr>tape := (tape s)[src := 0, dst := tape s ! dst + int 0]\<rparr> = s"
    by simp
  with 0 show ?case
    by (simp add: big_wp moveP_def wp_Skip)
next
  case (Suc v)
  let ?w = "tape s ! dst"
  let ?s1 = "s\<lparr>tape := (tape s)[src := int v, dst := ?w + 1], ptr := src\<rparr>"
  have p: "s\<lparr>tape := t, ptr := src\<rparr> = s\<lparr>tape := t\<rparr>" for t
    using Suc.prems(1) by (cases s) simp
  have "big inp cs (moveP src dst Done) ?s1 (1 + v * (3 + 2 * dist src dst))
          (?s1\<lparr>tape := (tape ?s1)[src := 0, dst := tape ?s1 ! dst + int v]\<rparr>)"
    using Suc.prems by (intro Suc.IH) simp_all
  moreover have "(tape s)[src := int v, dst := ?w + 1, src := 0, dst := ?w + 1 + int v] =
      (tape s)[src := 0, dst := ?w + int (Suc v)]"
    using Suc.prems by (intro tape_eqI) (auto simp: nth_list_update)
  ultimately have b: "big inp cs (moveP src dst Done) ?s1 (1 + v * (3 + 2 * dist src dst))
          (s\<lparr>tape := (tape s)[src := 0, dst := ?w + int (Suc v)]\<rparr>)"
    using Suc.prems by (simp add: p)
  have cs: "cs \<noteq> 0" using Suc.prems by auto
  have m1: "(1 + int v - 1) mod cs = int v" using Suc.prems by simp
  have m2: "(?w + 1) mod cs = ?w + 1" using Suc.prems by simp
  have d: "dist dst src = dist src dst" by (simp add: dist_def)
  from Suc.prems
  have "wp inp cs (moveP src dst Done) s 0
      (\<lambda>N t. N = 1 + Suc v * (3 + 2 * dist src dst) \<and>
             t = s\<lparr>tape := (tape s)[src := 0, dst := ?w + int (Suc v)]\<rparr>)"
    by (simp add: moveP_def wp_unfold wp_minus wp_go wp_plus m1 m2 d cs
          wp_big[OF b[unfolded moveP_def]])
  then show ?case by (simp only: big_wp)
qed

lemma wp_move:
  assumes "ptr s = src" "src \<noteq> dst" "src < length (tape s)" "dst < length (tape s)"
    "0 \<le> tape s ! src" "0 \<le> tape s ! dst" "tape s ! dst + tape s ! src < cs"
  shows "wp inp cs (moveP src dst k) s u Q =
     wp inp cs k (s\<lparr>tape := (tape s)[src := 0, dst := tape s ! dst + tape s ! src]\<rparr>)
       (u + (1 + nat (tape s ! src) * (3 + 2 * dist src dst))) Q"
proof -
  have "big inp cs (moveP src dst Done) s (1 + nat (tape s ! src) * (3 + 2 * dist src dst))
     (s\<lparr>tape := (tape s)[src := 0, dst := tape s ! dst + int (nat (tape s ! src))]\<rparr>)"
    using assms by (intro move_big) simp_all
  then have "big inp cs (Loop (Op CHR ''-'' (go src dst (Op CHR ''+'' (go dst src Done)))) Done) s
     (1 + nat (tape s ! src) * (3 + 2 * dist src dst))
     (s\<lparr>tape := (tape s)[src := 0, dst := tape s ! dst + tape s ! src]\<rparr>)"
    using assms(5) by (simp add: moveP_def)
  from wp_Loop[OF this] show ?thesis by (simp add: moveP_def)
qed


section \<open>The loops of multiply\<close>

lemma seq_addP [simp]: "seq (addP b r t k) q = addP b r t (seq k q)"
  by (simp add: addP_def)

lemma seq_multiplyP [simp]: "seq (multiplyP a b r t k) q = multiplyP a b r t (seq k q)"
  by (simp add: multiplyP_def)

lemma dist_sym: "dist a b = dist b a"
  by (simp add: dist_def)

lemma add_big:
  "ptr s = b \<Longrightarrow> b \<noteq> r \<Longrightarrow> b \<noteq> t \<Longrightarrow> r \<noteq> t \<Longrightarrow>
   b < length (tape s) \<Longrightarrow> r < length (tape s) \<Longrightarrow> t < length (tape s) \<Longrightarrow>
   tape s ! b = int v \<Longrightarrow> 0 \<le> tape s ! r \<Longrightarrow> tape s ! r + int v < cs \<Longrightarrow>
   0 \<le> tape s ! t \<Longrightarrow> tape s ! t + int v < cs \<Longrightarrow>
   big inp cs (addP b r t Done) s (add_steps b r t v)
     (s\<lparr>tape := (tape s)[b := 0, r := tape s ! r + int v, t := tape s ! t + int v]\<rparr>)"
proof (induction v arbitrary: s)
  case 0
  then have "(tape s)[b := 0, r := tape s ! r + int 0, t := tape s ! t + int 0] = tape s"
    by (intro tape_eqI) (auto simp: nth_list_update)
  then have "s\<lparr>tape := (tape s)[b := 0, r := tape s ! r + int 0, t := tape s ! t + int 0]\<rparr> = s"
    by simp
  with 0 show ?case
    by (simp add: big_wp addP_def wp_Skip add_steps_def)
next
  case (Suc v)
  let ?x = "tape s ! r" and ?y = "tape s ! t"
  let ?s1 = "s\<lparr>tape := (tape s)[b := int v, r := ?x + 1, t := ?y + 1], ptr := b\<rparr>"
  have p: "s\<lparr>tape := t', ptr := b\<rparr> = s\<lparr>tape := t'\<rparr>" for t'
    using Suc.prems(1) by (cases s) simp
  have "big inp cs (addP b r t Done) ?s1 (add_steps b r t v)
          (?s1\<lparr>tape := (tape ?s1)[b := 0, r := tape ?s1 ! r + int v, t := tape ?s1 ! t + int v]\<rparr>)"
    using Suc.prems by (intro Suc.IH) simp_all
  moreover have "(tape s)[b := int v, r := ?x + 1, t := ?y + 1,
        b := 0, r := ?x + 1 + int v, t := ?y + 1 + int v] =
      (tape s)[b := 0, r := ?x + int (Suc v), t := ?y + int (Suc v)]"
    using Suc.prems by (intro tape_eqI) (auto simp: nth_list_update)
  ultimately have b: "big inp cs (addP b r t Done) ?s1 (add_steps b r t v)
          (s\<lparr>tape := (tape s)[b := 0, r := ?x + int (Suc v), t := ?y + int (Suc v)]\<rparr>)"
    using Suc.prems by (simp add: p)
  have cs: "cs \<noteq> 0" using Suc.prems by auto
  have m1: "(1 + int v - 1) mod cs = int v" using Suc.prems by simp
  have m2: "(?x + 1) mod cs = ?x + 1" "(?y + 1) mod cs = ?y + 1" using Suc.prems by simp_all
  from Suc.prems
  have "wp inp cs (addP b r t Done) s 0
      (\<lambda>N t'. N = add_steps b r t (Suc v) \<and>
             t' = s\<lparr>tape := (tape s)[b := 0, r := ?x + int (Suc v), t := ?y + int (Suc v)]\<rparr>)"
    by (simp add: addP_def wp_unfold wp_minus wp_go wp_plus m1 m2 cs
          wp_big[OF b[unfolded addP_def]] add_steps_def)
  then show ?case by (simp only: big_wp)
qed

lemma wp_add:
  assumes "ptr s = b" "b \<noteq> r" "b \<noteq> t" "r \<noteq> t"
    "b < length (tape s)" "r < length (tape s)" "t < length (tape s)"
    "0 \<le> tape s ! b" "0 \<le> tape s ! r" "tape s ! r + tape s ! b < cs"
    "0 \<le> tape s ! t" "tape s ! t + tape s ! b < cs"
  shows "wp inp cs (addP b r t k) s u Q =
     wp inp cs k (s\<lparr>tape := (tape s)[b := 0, r := tape s ! r + tape s ! b,
                                       t := tape s ! t + tape s ! b]\<rparr>)
       (u + add_steps b r t (nat (tape s ! b))) Q"
proof -
  have "big inp cs (addP b r t Done) s (add_steps b r t (nat (tape s ! b)))
     (s\<lparr>tape := (tape s)[b := 0, r := tape s ! r + int (nat (tape s ! b)),
                           t := tape s ! t + int (nat (tape s ! b))]\<rparr>)"
    using assms by (intro add_big) simp_all
  then have "big inp cs (Loop (Op CHR ''-'' (go b r (Op CHR ''+'' (go r t (Op CHR ''+'' (go t b Done)))))) Done) s
     (add_steps b r t (nat (tape s ! b)))
     (s\<lparr>tape := (tape s)[b := 0, r := tape s ! r + tape s ! b, t := tape s ! t + tape s ! b]\<rparr>)"
    using assms(8) by (simp add: addP_def)
  from wp_Loop[OF this] show ?thesis by (simp add: addP_def)
qed

lemma multiply_big:
  "ptr s = a \<Longrightarrow> distinct [a, b, r, t] \<Longrightarrow>
   a < length (tape s) \<Longrightarrow> b < length (tape s) \<Longrightarrow> r < length (tape s) \<Longrightarrow> t < length (tape s) \<Longrightarrow>
   tape s ! a = int x \<Longrightarrow> int x < cs \<Longrightarrow> tape s ! b = int y \<Longrightarrow> int y < cs \<Longrightarrow>
   0 \<le> tape s ! r \<Longrightarrow> tape s ! r + int (x * y) < cs \<Longrightarrow> tape s ! t = 0 \<Longrightarrow>
   big inp cs (multiplyP a b r t Done) s (multiply_steps a b r t x y)
     (s\<lparr>tape := (tape s)[a := 0, r := tape s ! r + int (x * y)]\<rparr>)"
proof (induction x arbitrary: s)
  case 0
  then have "(tape s)[a := 0, r := tape s ! r + int (0 * y)] = tape s"
    by (intro tape_eqI) (auto simp: nth_list_update)
  then have "s\<lparr>tape := (tape s)[a := 0, r := tape s ! r + int (0 * y)]\<rparr> = s"
    by simp
  with 0 show ?case
    by (simp add: big_wp multiplyP_def wp_Skip multiply_steps_def)
next
  case (Suc x)
  let ?z = "tape s ! r"
  let ?s1 = "s\<lparr>tape := (tape s)[a := int x, r := ?z + int y], ptr := a\<rparr>"
  have p: "s\<lparr>tape := t', ptr := a\<rparr> = s\<lparr>tape := t'\<rparr>" for t'
    using Suc.prems(1) by (cases s) simp
  have le1: "?z + int y + int (x * y) < cs"
    using Suc.prems by (simp add: algebra_simps)
  have "0 \<le> int (x * y)" by simp
  with le1 have le2: "?z + int y < cs" by linarith
  note le = le1 le2
  have "big inp cs (multiplyP a b r t Done) ?s1 (multiply_steps a b r t x y)
          (?s1\<lparr>tape := (tape ?s1)[a := 0, r := tape ?s1 ! r + int (x * y)]\<rparr>)"
    using Suc.prems le by (intro Suc.IH) simp_all
  moreover have "(tape s)[a := int x, r := ?z + int y, a := 0, r := ?z + int y + int (x * y)] =
      (tape s)[a := 0, r := ?z + int (Suc x * y)]"
    using Suc.prems by (intro tape_eqI) (auto simp: nth_list_update algebra_simps)
  ultimately have b: "big inp cs (multiplyP a b r t Done) ?s1 (multiply_steps a b r t x y)
          (s\<lparr>tape := (tape s)[a := 0, r := ?z + int (Suc x * y)]\<rparr>)"
    using Suc.prems by (simp add: p)
  have cs: "cs \<noteq> 0" using Suc.prems by auto
  have m1: "(1 + int x - 1) mod cs = int x" using Suc.prems le by simp
  have t1: "(tape s)[a := int x, b := 0, r := ?z + int y, t := 0, b := int y] =
      (tape s)[a := int x, r := ?z + int y]"
    using Suc.prems by (intro tape_eqI) (auto simp: nth_list_update)
  from Suc.prems le
  have "wp inp cs (multiplyP a b r t Done) s 0
      (\<lambda>N t'. N = multiply_steps a b r t (Suc x) y \<and>
             t' = s\<lparr>tape := (tape s)[a := 0, r := ?z + int (Suc x * y)]\<rparr>)"
    apply (simp add: multiplyP_def wp_unfold wp_minus wp_go m1 cs)
    apply (simp add: wp_add wp_go wp_move t1)
    apply (simp add: wp_big[OF b[unfolded multiplyP_def]] multiply_steps_def move_steps_def dist_sym)
    done
  then show ?case by (simp only: big_wp)
qed

lemma wp_multiply:
  assumes "ptr s = a" "distinct [a, b, r, t]"
    "a < length (tape s)" "b < length (tape s)" "r < length (tape s)" "t < length (tape s)"
    "0 \<le> tape s ! a" "tape s ! a < cs" "0 \<le> tape s ! b" "tape s ! b < cs"
    "0 \<le> tape s ! r" "tape s ! r + tape s ! a * tape s ! b < cs" "tape s ! t = 0"
  shows "wp inp cs (multiplyP a b r t k) s u Q =
     wp inp cs k (s\<lparr>tape := (tape s)[a := 0, r := tape s ! r + tape s ! a * tape s ! b]\<rparr>)
       (u + multiply_steps a b r t (nat (tape s ! a)) (nat (tape s ! b))) Q"
proof -
  let ?x = "nat (tape s ! a)" and ?y = "nat (tape s ! b)"
  have xy: "int (?x * ?y) = tape s ! a * tape s ! b" using assms(7,9) by simp
  have "big inp cs (multiplyP a b r t Done) s (multiply_steps a b r t ?x ?y)
     (s\<lparr>tape := (tape s)[a := 0, r := tape s ! r + int (?x * ?y)]\<rparr>)"
    using assms by (intro multiply_big) simp_all
  then have "big inp cs
     (Loop (Op CHR ''-'' (go a b (addP b r t (go b t (moveP t b (go t a Done)))))) Done) s
     (multiply_steps a b r t ?x ?y)
     (s\<lparr>tape := (tape s)[a := 0, r := tape s ! r + tape s ! a * tape s ! b]\<rparr>)"
    by (simp only: xy multiplyP_def)
  from wp_Loop[OF this] show ?thesis by (simp add: multiplyP_def)
qed


section \<open>The loop of divmod_10\<close>

lemma seq_divP [simp]: "seq (divP k) q = divP (seq k q)"
  by (simp add: divP_def)

lemma list_update_sort: "j < i \<Longrightarrow> xs[i := a, j := b] = xs[j := b, i := (a::'a)]"
  by (simp add: list_update_swap)

lemma wp_big':
  "big inp cs p s1 n s' \<Longrightarrow> s = s1 \<Longrightarrow> wp inp cs p s u Q = Q (u + n) s'"
  using wp_big by blast

lemma state_eqI: "a = b \<Longrightarrow> s\<lparr>tape := a, ptr := q\<rparr> = s\<lparr>tape := b, ptr := q\<rparr>"
  by simp

lemma div_big:
  "ptr s = p \<Longrightarrow> p + 5 < length (tape s) \<Longrightarrow> 10 < cs \<Longrightarrow>
   tape s ! p = int n \<Longrightarrow> int n < cs \<Longrightarrow> r < 10 \<Longrightarrow>
   tape s ! (p + 1) = 10 - int r \<Longrightarrow> tape s ! (p + 2) = int r \<Longrightarrow>
   tape s ! (p + 3) = int q \<Longrightarrow> int (q + (n + r) div 10) < cs \<Longrightarrow>
   tape s ! (p + 4) = 0 \<Longrightarrow> tape s ! (p + 5) = 0 \<Longrightarrow>
   big inp cs (divP Done) s (div_steps n r)
     (s\<lparr>tape := (tape s)[p := 0, p + 1 := 10 - int ((n + r) mod 10),
        p + 2 := int ((n + r) mod 10), p + 3 := int (q + (n + r) div 10)]\<rparr>)"
proof (induction n arbitrary: s r q)
  case 0
  then have "(tape s)[p := 0, p + 1 := 10 - int ((0 + r) mod 10),
        p + 2 := int ((0 + r) mod 10), p + 3 := int (q + (0 + r) div 10)] = tape s"
    by (intro tape_eqI) (auto simp: nth_list_update)
  then have "s\<lparr>tape := (tape s)[p := 0, p + 1 := 10 - int ((0 + r) mod 10),
        p + 2 := int ((0 + r) mod 10), p + 3 := int (q + (0 + r) div 10)]\<rparr> = s"
    by simp
  with 0 show ?case
    by (simp add: big_wp divP_def wp_Skip)
next
  case (Suc n)
  have ps: "s\<lparr>tape := t', ptr := p\<rparr> = s\<lparr>tape := t'\<rparr>" for t'
    using Suc.prems(1) by (cases s) simp
  have cs: "cs \<noteq> 0" using Suc.prems by auto
  have e: "p + 3 = Suc (Suc (Suc p))" "p + 4 = Suc (Suc (Suc (Suc p)))"
    "p + 5 = Suc (Suc (Suc (Suc (Suc p))))" by simp_all
  have m1: "(1 + int n - 1) mod cs = int n" using Suc.prems by simp
  show ?case
  proof (cases "r = 9")
    case True
    define s1 where "s1 = s\<lparr>tape := (tape s)[p := int n, p + 1 := 10, p + 2 := 0, p + 3 := int (q + 1)],
                 ptr := p\<rparr>"
    have "big inp cs (divP Done) s1 (div_steps n 0)
          (s1\<lparr>tape := (tape s1)[p := 0, p + 1 := 10 - int ((n + 0) mod 10),
             p + 2 := int ((n + 0) mod 10), p + 3 := int (q + 1 + (n + 0) div 10)]\<rparr>)"
      using Suc.prems True by (intro Suc.IH) (simp_all add: s1_def)
    moreover have "(tape s)[p := int n, p + 1 := 10, p + 2 := 0, p + 3 := int (q + 1),
          p := 0, p + 1 := 10 - int ((n + 0) mod 10),
             p + 2 := int ((n + 0) mod 10), p + 3 := int (q + 1 + (n + 0) div 10)] =
        (tape s)[p := 0, p + 1 := 10 - int ((Suc n + r) mod 10),
        p + 2 := int ((Suc n + r) mod 10), p + 3 := int (q + (Suc n + r) div 10)]"
      using Suc.prems True by (intro tape_eqI) (auto simp: nth_list_update)
    ultimately have b: "big inp cs (divP Done) s1 (div_steps n 0)
          (s\<lparr>tape := (tape s)[p := 0, p + 1 := 10 - int ((Suc n + r) mod 10),
        p + 2 := int ((Suc n + r) mod 10), p + 3 := int (q + (Suc n + r) div 10)]\<rparr>)"
      by (simp add: ps s1_def)
    from Suc.prems True
    have "wp inp cs (divP Done) s 0
        (\<lambda>N t'. N = div_steps (Suc n) r \<and>
           t' = s\<lparr>tape := (tape s)[p := 0, p + 1 := 10 - int ((Suc n + r) mod 10),
        p + 2 := int ((Suc n + r) mod 10), p + 3 := int (q + (Suc n + r) div 10)]\<rparr>)"
      apply (simp add: divP_def wp_unfold e)
      apply (simp add: wp_ops m1 cs wp_Skip wp_unfold)
      apply (subst wp_big'[OF b[unfolded divP_def ops_of.simps]])
       apply (simp add: s1_def e)
       apply (rule state_eqI)
       apply (intro tape_eqI; auto simp: nth_list_update)
      apply (simp add: e)
      done
    then show ?thesis by (simp only: big_wp)
  next
    case False
    with Suc.prems have r: "r < 9" by simp
    define s1 where "s1 = s\<lparr>tape := (tape s)[p := int n, p + 1 := 10 - int (Suc r), p + 2 := int (Suc r)],
                 ptr := p\<rparr>"
    have "big inp cs (divP Done) s1 (div_steps n (Suc r))
          (s1\<lparr>tape := (tape s1)[p := 0, p + 1 := 10 - int ((n + Suc r) mod 10),
             p + 2 := int ((n + Suc r) mod 10), p + 3 := int (q + (n + Suc r) div 10)]\<rparr>)"
      using Suc.prems r by (intro Suc.IH) (simp_all add: s1_def)
    moreover have "(tape s)[p := int n, p + 1 := 10 - int (Suc r), p + 2 := int (Suc r),
          p := 0, p + 1 := 10 - int ((n + Suc r) mod 10),
             p + 2 := int ((n + Suc r) mod 10), p + 3 := int (q + (n + Suc r) div 10)] =
        (tape s)[p := 0, p + 1 := 10 - int ((Suc n + r) mod 10),
        p + 2 := int ((Suc n + r) mod 10), p + 3 := int (q + (Suc n + r) div 10)]"
      using Suc.prems by (intro tape_eqI) (auto simp: nth_list_update)
    ultimately have b: "big inp cs (divP Done) s1 (div_steps n (Suc r))
          (s\<lparr>tape := (tape s)[p := 0, p + 1 := 10 - int ((Suc n + r) mod 10),
        p + 2 := int ((Suc n + r) mod 10), p + 3 := int (q + (Suc n + r) div 10)]\<rparr>)"
      by (simp add: ps s1_def)
    have m2: "(10 - int r - 1) mod cs = 9 - int r" "(int r + 1) mod cs = int r + 1"
      "(1 + int r) mod cs = 1 + int r" "(9 - int r) mod cs = 9 - int r"
      using Suc.prems r by simp_all
    from Suc.prems r False
    have "wp inp cs (divP Done) s 0
        (\<lambda>N t'. N = div_steps (Suc n) r \<and>
           t' = s\<lparr>tape := (tape s)[p := 0, p + 1 := 10 - int ((Suc n + r) mod 10),
        p + 2 := int ((Suc n + r) mod 10), p + 3 := int (q + (Suc n + r) div 10)]\<rparr>)"
      apply (simp add: divP_def wp_unfold e)
      apply (simp add: wp_ops m1 m2 cs wp_Skip wp_unfold)
      apply (subst wp_big'[OF b[unfolded divP_def ops_of.simps]])
       apply (simp add: s1_def e)
       apply (rule state_eqI)
       apply (intro tape_eqI; auto simp: nth_list_update)
      apply (simp add: e)
      done
    then show ?thesis by (simp only: big_wp)
  qed
qed


section \<open>divmod_10\<close>

lemma seq_divmodP [simp]: "seq (divmodP p0 base k) q = divmodP p0 base (seq k q)"
  by (simp add: divmodP_def)

lemma wp_cong: "s1 = s2 \<Longrightarrow> u1 = u2 \<Longrightarrow> wp inp cs k s1 u1 Q = wp inp cs k s2 u2 Q"
  by simp

lemma state_eq_iff:
  "(s1 = s2) = (tape s1 = tape s2 \<and> ptr s1 = ptr s2 \<and> ip s1 = ip s2 \<and>
     input_pos s1 = input_pos s2 \<and> output_buf s1 = output_buf (s2::state))"
  by (cases s1; cases s2) auto

lemma wp_div:
  assumes "ptr s = p" "p + 5 < length (tape s)" "10 < cs"
    "0 \<le> tape s ! p" "tape s ! p < cs"
    "tape s ! (p + 1) = 10" "tape s ! (p + 2) = 0" "tape s ! (p + 3) = 0"
    "tape s ! (p + 4) = 0" "tape s ! (p + 5) = 0"
  shows "wp inp cs (divP k) s u Q =
     wp inp cs k (s\<lparr>tape := (tape s)[p := 0, p + 1 := 10 - (tape s ! p) mod 10,
        p + 2 := (tape s ! p) mod 10, p + 3 := (tape s ! p) div 10]\<rparr>)
       (u + div_steps (nat (tape s ! p)) 0) Q"
proof -
  let ?n = "nat (tape s ! p)"
  have n: "int ?n = tape s ! p" using assms(4) by simp
  have d: "int (?n div 10) = tape s ! p div 10" "int (?n mod 10) = tape s ! p mod 10"
    using assms(4) by (simp_all add: zdiv_int zmod_int)
  have "?n div 10 \<le> ?n" by simp
  then have "int (?n div 10) \<le> int ?n" by (simp only: of_nat_le_iff)
  with n assms(5) have dq: "int (0 + (?n + 0) div 10) < cs" by simp
  have "big inp cs (divP Done) s (div_steps ?n 0)
     (s\<lparr>tape := (tape s)[p := 0, p + 1 := 10 - int ((?n + 0) mod 10),
        p + 2 := int ((?n + 0) mod 10), p + 3 := int (0 + (?n + 0) div 10)]\<rparr>)"
    using assms dq by (intro div_big) simp_all
  then have "big inp cs (divP Done) s (div_steps ?n 0)
     (s\<lparr>tape := (tape s)[p := 0, p + 1 := 10 - (tape s ! p) mod 10,
        p + 2 := (tape s ! p) mod 10, p + 3 := (tape s ! p) div 10]\<rparr>)"
    by (simp add: d del: of_nat_div of_nat_mod)
  from wp_seq[OF this, of k u Q] show ?thesis by simp
qed

lemma wp_divmod:
  assumes "ptr s = p0" "base + 6 < length (tape s)" "10 < cs"
    "0 \<le> tape s ! (base + 1)" "tape s ! (base + 1) < cs"
    "tape s ! (base + 2) = 0" "tape s ! (base + 3) = 0" "tape s ! (base + 4) = 0"
    "tape s ! (base + 5) = 0" "tape s ! (base + 6) = 0"
  shows "wp inp cs (divmodP p0 base k) s u Q =
     wp inp cs k (s\<lparr>tape := (tape s)[base + 1 := 0, base + 3 := (tape s ! (base + 1)) mod 10,
        base + 4 := (tape s ! (base + 1)) div 10], ptr := base + 2\<rparr>)
       (u + divmod_steps p0 base (nat (tape s ! (base + 1)))) Q"
proof -
  have e: "base + 3 = Suc (Suc (Suc base))" "base + 4 = Suc (Suc (Suc (Suc base)))"
    "base + 5 = Suc (Suc (Suc (Suc (Suc base))))"
    "base + 6 = Suc (Suc (Suc (Suc (Suc (Suc base)))))" by simp_all
  have m: "10 mod cs = 10" using assms(3) by simp
  have r: "0 \<le> 10 - tape s ! Suc base mod 10" "10 - tape s ! Suc base mod 10 < cs"
    using assms(3) pos_mod_sign[of 10 "tape s ! Suc base"] by simp_all
  have n: "nat (10 - tape s ! Suc base mod 10) = 10 - nat (tape s ! Suc base) mod 10"
    using assms(4) by (simp add: nat_diff_distrib' nat_mod_distrib)
  show ?thesis
    using assms
    apply (simp add: divmodP_def wp_go wp_pluses m e)
    apply (simp add: wp_right wp_div e)
    apply (simp add: wp_go wp_clear r)
    apply (rule wp_cong)
     apply (simp add: state_eq_iff)
     apply (intro tape_eqI; auto simp: nth_list_update)
    apply (simp add: divmod_steps_def dist_def n)
    done
qed


section \<open>Printing one character\<close>

lemma seq_putP [simp]: "seq (putP p c n k) q = putP p c n (seq k q)"
  by (simp add: putP_def)

lemma seq_digitsP [simp]: "seq (digitsP p0 val ws k) q = digitsP p0 val ws (seq k q)"
  by (simp add: digitsP_def)

lemma seq_branchesP [simp]: "seq (branchesP ws k) q = branchesP ws (seq k q)"
  by (simp add: branchesP_def)

lemma seq_printP [simp]: "seq (printP p0 val ws k) q = printP p0 val ws (seq k q)"
  by (simp add: printP_def)

lemma wp_put:
  assumes "ptr s = p" "c < length (tape s)" "0 < n" "0 \<le> tape s ! c"
    "tape s ! c + int n < cs" "tape s ! c + int n < 1114112"
  shows "wp inp cs (putP p c n k) s u Q =
     wp inp cs k (s\<lparr>tape := (tape s)[c := 0], ptr := c,
                     output_buf := output_buf s @ [tape s ! c + int n]\<rparr>)
       (u + put_steps p c n (nat (tape s ! c))) Q"
proof -
  have cs: "cs \<noteq> 0" using assms by auto
  have m: "(tape s ! c + int n) mod cs = tape s ! c + int n" using assms by simp
  show ?thesis
    using assms
    apply (simp add: putP_def wp_go wp_pluses wp_out wp_clear cs m)
    apply (rule wp_cong)
     apply (simp add: state_eq_iff)
    apply (simp add: put_steps_def nat_add_distrib)
    done
qed


section \<open>print_number: the two divisions\<close>

lemma window_offsets:
  "ws + 3 = Suc (Suc (Suc ws))" "ws + 4 = Suc (Suc (Suc (Suc ws)))"
  "ws + 5 = Suc (Suc (Suc (Suc (Suc ws))))"
  "ws + 6 = Suc (Suc (Suc (Suc (Suc (Suc ws)))))"
  "ws + 7 = Suc (Suc (Suc (Suc (Suc (Suc (Suc ws))))))"
  "ws + 8 = Suc (Suc (Suc (Suc (Suc (Suc (Suc (Suc ws)))))))"
  "ws + 9 = Suc (Suc (Suc (Suc (Suc (Suc (Suc (Suc (Suc ws))))))))"
  "ws + 10 = Suc (Suc (Suc (Suc (Suc (Suc (Suc (Suc (Suc (Suc ws)))))))))"
  "ws + 11 = Suc (Suc (Suc (Suc (Suc (Suc (Suc (Suc (Suc (Suc (Suc ws))))))))))"
  "ws + 12 = Suc (Suc (Suc (Suc (Suc (Suc (Suc (Suc (Suc (Suc (Suc (Suc ws)))))))))))"
  "ws + 13 = Suc (Suc (Suc (Suc (Suc (Suc (Suc (Suc (Suc (Suc (Suc (Suc (Suc ws))))))))))))"
  by simp_all

lemma window_zero:
  assumes "\<forall>i<14. tape s ! (ws + i) = (0::int)"
  shows "tape s ! ws = 0" "tape s ! (ws + 1) = 0" "tape s ! (ws + 2) = 0" "tape s ! (ws + 3) = 0"
    "tape s ! (ws + 4) = 0" "tape s ! (ws + 5) = 0" "tape s ! (ws + 6) = 0" "tape s ! (ws + 7) = 0"
    "tape s ! (ws + 8) = 0" "tape s ! (ws + 9) = 0" "tape s ! (ws + 10) = 0" "tape s ! (ws + 11) = 0"
    "tape s ! (ws + 12) = 0" "tape s ! (ws + 13) = 0"
  using assms[rule_format, of 0] assms[rule_format, of 1] assms[rule_format, of 2]
    assms[rule_format, of 3] assms[rule_format, of 4] assms[rule_format, of 5]
    assms[rule_format, of 6] assms[rule_format, of 7] assms[rule_format, of 8]
    assms[rule_format, of 9] assms[rule_format, of 10] assms[rule_format, of 11]
    assms[rule_format, of 12] assms[rule_format, of 13]
  by simp_all

lemma outside_window:
  assumes "val < ws \<or> ws + 13 < (val::nat)"
  shows "val \<noteq> ws" "val \<noteq> ws + 1" "val \<noteq> ws + 2" "val \<noteq> ws + 3" "val \<noteq> ws + 4"
    "val \<noteq> ws + 5" "val \<noteq> ws + 6" "val \<noteq> ws + 7" "val \<noteq> ws + 8" "val \<noteq> ws + 9"
    "val \<noteq> ws + 10" "val \<noteq> ws + 11" "val \<noteq> ws + 12" "val \<noteq> ws + 13"
  using assms by auto

lemma wp_digits:
  assumes "ptr s = p0" "val < length (tape s)" "ws + 13 < length (tape s)"
    "val < ws \<or> ws + 13 < val"
    "tape s ! val = int v" "v \<le> 255" "\<forall>i<14. tape s ! (ws + i) = 0"
  shows "wp inp 256 (digitsP p0 val ws k) s u Q =
     wp inp 256 k (s\<lparr>tape := (tape s)[val := 0, ws + 3 := int (v mod 10),
                               ws + 9 := int (v div 10 mod 10), ws + 10 := int (v div 100)],
                     ptr := ws + 8\<rparr>)
       (u + digits_steps p0 val ws v) Q"
proof -
  note e = window_offsets[of ws]
  note z = window_zero[OF assms(7)]
  note ne = outside_window[OF assms(4)]
  have v: "int v mod 10 = int (v mod 10)" "int v div 10 = int (v div 10)"
    "int (v div 10) mod 10 = int (v div 10 mod 10)" "int (v div 10) div 10 = int (v div 100)"
    by (simp_all add: zmod_int zdiv_int div_mult2_eq)
  have b: "int (v div 10) < 256" "int v < 256"
    using assms(6) by simp_all
  show ?thesis
    using assms(1-3,5) z b ne
    apply (simp add: digitsP_def wp_go e del: of_nat_div of_nat_mod)
    apply (simp add: wp_move wp_go wp_divmod e v del: of_nat_div of_nat_mod)
    apply (rule wp_cong)
     apply (simp add: state_eq_iff)
     apply (intro tape_eqI; auto simp: nth_list_update)
    apply (simp add: digits_steps_def move_steps_def dist_def e)
    done
qed


section \<open>print_number: the digits, without leading zeros\<close>

lemma wp_branches:
  assumes "ptr s = ws + 8" "ws + 13 < length (tape s)"
    "tape s ! (ws + 3) = int o'" "tape s ! (ws + 9) = int t" "tape s ! (ws + 10) = int h"
    "o' < 10" "t < 10" "h < 10" "tape s ! (ws + 12) = 0" "tape s ! (ws + 13) = 0"
  shows "wp inp 256 (branchesP ws k) s u Q =
     wp inp 256 k (s\<lparr>tape := (tape s)[ws + 3 := 0, ws + 9 := 0, ws + 10 := 0],
                     ptr := ws + 12,
                     output_buf := output_buf s @
                       (if h \<noteq> 0 then [48 + int h, 48 + int t, 48 + int o']
                        else if t \<noteq> 0 then [48 + int t, 48 + int o'] else [48 + int o'])\<rparr>)
       (u + branches_steps ws h t o') Q"
proof -
  note e = window_offsets[of ws]
  have b': "int h + 48 < 256" "int t + 48 < 256" "int o' + 48 < 256"
    "int h + 48 < 1114112" "int t + 48 < 1114112" "int o' + 48 < 1114112"
    using assms(6-8) by simp_all
  consider (h) "h \<noteq> 0" | (t) "h = 0" "t \<noteq> 0" | (o) "h = 0" "t = 0" by blast
  then show ?thesis
  proof cases
    case h
    show ?thesis
      using assms(1-5,9,10) b' h
      apply (simp add: branchesP_def wp_go e)
      apply (simp add: wp_plus wp_minus wp_go wp_unfold wp_Skip wp_put)
      apply (rule wp_cong)
       apply (simp add: state_eq_iff)
       apply (intro tape_eqI; auto simp: nth_list_update)
      apply (simp add: branches_steps_def dist_def e)
      done
  next
    case t
    show ?thesis
      using assms(1-5,9,10) b' t
      apply (simp add: branchesP_def wp_go e)
      apply (simp add: wp_plus wp_minus wp_go wp_unfold wp_Skip wp_put)
      apply (rule wp_cong)
       apply (simp add: state_eq_iff)
       apply (intro tape_eqI; auto simp: nth_list_update)
      apply (simp add: branches_steps_def dist_def e)
      done
  next
    case o
    show ?thesis
      using assms(1-5,9,10) b' o
      apply (simp add: branchesP_def wp_go e)
      apply (simp add: wp_plus wp_minus wp_go wp_unfold wp_Skip wp_put)
      apply (rule wp_cong)
       apply (simp add: state_eq_iff)
       apply (intro tape_eqI; auto simp: nth_list_update)
      apply (simp add: branches_steps_def dist_def e)
      done
  qed
qed


section \<open>print_number\<close>

lemma decimal_255:
  assumes "v \<le> 255"
  shows "decimal v =
    (if v div 100 \<noteq> 0 then [48 + int (v div 100), 48 + int (v div 10 mod 10), 48 + int (v mod 10)]
     else if v div 10 mod 10 \<noteq> 0 then [48 + int (v div 10 mod 10), 48 + int (v mod 10)]
     else [48 + int (v mod 10)])"
proof -
  consider (h) "100 \<le> v" | (t) "10 \<le> v" "v < 100" | (o) "v < 10" by linarith
  then show ?thesis
  proof cases
    case h
    have 1: "\<not> v < 10" "\<not> v div 10 < 10" "v div 10 div 10 = v div 100" "v div 100 < 10"
      "v div 100 \<noteq> 0"
      using assms h by (simp_all add: div_mult2_eq)
    have "decimal v = decimal (v div 10) @ [48 + int (v mod 10)]"
      using 1(1) by (subst decimal.simps) simp
    also have "decimal (v div 10) = decimal (v div 100) @ [48 + int (v div 10 mod 10)]"
      using 1(2,3) by (subst decimal.simps) simp
    also have "decimal (v div 100) = [48 + int (v div 100)]"
      using 1(4) by (subst decimal.simps) simp
    finally show ?thesis using 1(5) by simp
  next
    case t
    have 1: "\<not> v < 10" "v div 10 < 10" "v div 100 = 0" "v div 10 mod 10 = v div 10" "v div 10 \<noteq> 0"
      using t by simp_all
    have "decimal v = decimal (v div 10) @ [48 + int (v mod 10)]"
      using 1(1) by (subst decimal.simps) simp
    also have "decimal (v div 10) = [48 + int (v div 10)]"
      using 1(2) by (subst decimal.simps) simp
    finally show ?thesis using 1(3,4,5) by simp
  next
    case o
    then have "decimal v = [48 + int v]" by (subst decimal.simps) simp
    with o show ?thesis by simp
  qed
qed

lemma wp_print:
  assumes "ptr s = p0" "val < length (tape s)" "ws + 13 < length (tape s)"
    "val < ws \<or> ws + 13 < val"
    "tape s ! val = int v" "v \<le> 255" "\<forall>i<14. tape s ! (ws + i) = 0"
  shows "wp inp 256 (printP p0 val ws k) s u Q =
     wp inp 256 k (s\<lparr>tape := (tape s)[val := 0], ptr := ws + 12,
                     output_buf := output_buf s @ decimal v\<rparr>)
       (u + print_steps p0 val ws v) Q"
proof -
  note e = window_offsets[of ws]
  note z = window_zero[OF assms(7)]
  note ne = outside_window[OF assms(4)]
  have d: "v mod 10 < 10" "v div 10 mod 10 < 10" "v div 100 < 10" using assms(6) by simp_all
  let ?sd = "s\<lparr>tape := (tape s)[val := 0, ws + 3 := int (v mod 10),
                               ws + 9 := int (v div 10 mod 10), ws + 10 := int (v div 100)],
                 ptr := ws + 8\<rparr>"
  let ?out = "if v div 100 \<noteq> 0
      then [48 + int (v div 100), 48 + int (v div 10 mod 10), 48 + int (v mod 10)]
      else if v div 10 mod 10 \<noteq> 0 then [48 + int (v div 10 mod 10), 48 + int (v mod 10)]
      else [48 + int (v mod 10)]"
  let ?sb = "?sd\<lparr>tape := (tape ?sd)[ws + 3 := 0, ws + 9 := 0, ws + 10 := 0], ptr := ws + 12,
                 output_buf := output_buf ?sd @ ?out\<rparr>"
  have "wp inp 256 (printP p0 val ws k) s u Q =
        wp inp 256 (branchesP ws k) ?sd (u + digits_steps p0 val ws v) Q"
    unfolding printP_def by (rule wp_digits[OF assms])
  also have "\<dots> = wp inp 256 k ?sb
      (u + digits_steps p0 val ws v + branches_steps ws (v div 100) (v div 10 mod 10) (v mod 10)) Q"
    using assms(1-3) z ne d
    by (intro wp_branches) (simp_all add: e del: of_nat_div of_nat_mod)
  also have "?sb = s\<lparr>tape := (tape s)[val := 0], ptr := ws + 12,
                     output_buf := output_buf s @ decimal v\<rparr>"
    using assms(1-3) z ne
    apply (simp only: decimal_255[OF assms(6)] state_eq_iff)
    apply (simp add: e del: of_nat_div of_nat_mod)
    apply (intro tape_eqI; auto simp: nth_list_update)
    done
  finally show ?thesis by (simp add: print_steps_def add.assoc)
qed


section \<open>Running structured programs; what the emitter emits\<close>

lemma run_bf_run_from:
  "run_bf program inp cs m =
     (case run_from program (map of_char inp) cs m init_state of
        Inl e \<Rightarrow> Inl e | Inr s \<Rightarrow> Inr (output_buf s))"
  by (simp add: run_bf_def run_from_def Let_def split: sum.splits prod.splits)

lemma wf_is_op: "wf p \<Longrightarrow> filter is_op (flatten p) = flatten p"
  by (induction p) (auto simp: is_op_def simple_def)

lemma run_from_big:
  assumes "wf p" and "filter is_op program = flatten p"
    and "big inp cs p s n s'" and "ip s = 0" and "int n \<le> m"
  shows "run_from program inp cs m s = Inr (s'\<lparr>ip := length (flatten p)\<rparr>)"
proof -
  let ?ops = "flatten p"
  let ?br = "table 0 p Map.empty"
  have mb: "match_brackets ?ops 0 [] Map.empty = Inr ([], ?br)"
    using match_brackets_table[OF assms(1), of "[]" 0 "[]" Map.empty] by simp
  have pl: "placed ?ops ?br 0 p"
    using placed_table[OF assms(1), of "[]" "[]" Map.empty] by simp
  have i0: "s\<lparr>ip := 0\<rparr> = s" using assms(4) by (cases s) simp
  have "exec_loop ?ops ?br inp cs m 0 s =
        exec_loop ?ops ?br inp cs m (0 + n) (s'\<lparr>ip := 0 + length ?ops\<rparr>)"
    using exec_loop_big[OF assms(3) pl, of 0 m] assms(5) i0 by simp
  also have "\<dots> = Inr (s'\<lparr>ip := length ?ops\<rparr>)"
    by (simp add: exec_loop.simps[of ?ops ?br _ cs m n "s'\<lparr>ip := length ?ops\<rparr>"])
  finally show ?thesis using mb assms(2) by (simp add: run_from_def)
qed

lemma code_emit [simp]: "concat (code (emit ch b)) = concat (code b) @ ch"
  by (simp add: emit_def)

lemma pos_emit [simp]: "pos (emit ch b) = pos b"
  by (simp add: emit_def)

lemma pos_goto [simp]: "pos (goto c b) = c"
  by (simp add: goto_def Let_def)

lemma flatten_go: "flatten (go p c k) = replicate (c - p) CHR ''>'' @ replicate (p - c) CHR ''<'' @ flatten k"
  by (simp add: go_def)

lemma code_goto:
  "0 \<le> pos b \<Longrightarrow> 0 \<le> c \<Longrightarrow>
   concat (code (goto c b)) = concat (code b) @ flatten (go (nat (pos b)) (nat c) Done)"
  by (auto simp: goto_def Let_def times_def flatten_go nat_diff_distrib)


section \<open>The macros emit the structured programs\<close>

lemma code_pos_update [simp]: "code (b\<lparr>pos := p\<rparr>) = code b"
  by simp

lemma code_inc:
  "0 \<le> pos b \<Longrightarrow> 0 \<le> c \<Longrightarrow>
   concat (code (inc c n b)) =
     concat (code b) @ flatten (go (nat (pos b)) (nat c) Done) @ replicate (nat n) CHR ''+''"
  by (simp add: inc_def code_goto times_def)

lemma code_dec:
  "0 \<le> pos b \<Longrightarrow> 0 \<le> c \<Longrightarrow>
   concat (code (dec c n b)) =
     concat (code b) @ flatten (go (nat (pos b)) (nat c) Done) @ replicate (nat n) CHR ''-''"
  by (simp add: dec_def code_goto times_def)

lemma code_clear:
  "0 \<le> pos b \<Longrightarrow> 0 \<le> c \<Longrightarrow>
   concat (code (clear c b)) = concat (code b) @ flatten (go (nat (pos b)) (nat c) Done) @ ''[-]''"
  by (simp add: clear_def code_goto)


lemma code_write:
  "0 \<le> pos b \<Longrightarrow> 0 \<le> c \<Longrightarrow>
   concat (code (bf_write c b)) = concat (code b) @ flatten (go (nat (pos b)) (nat c) Done) @ ''.''"
  by (simp add: bf_write_def code_goto)

lemma code_loop_open:
  "0 \<le> pos b \<Longrightarrow> 0 \<le> c \<Longrightarrow>
   concat (code (loop_open c b)) = concat (code b) @ flatten (go (nat (pos b)) (nat c) Done) @ ''[''"
  by (simp add: loop_open_def code_goto)

lemma code_loop_close:
  "0 \<le> pos b \<Longrightarrow> 0 \<le> c \<Longrightarrow>
   concat (code (loop_close c b)) = concat (code b) @ flatten (go (nat (pos b)) (nat c) Done) @ '']''"
  by (simp add: loop_close_def code_goto)

lemma pos_ops [simp]:
  "pos (inc c n b) = c" "pos (dec c n b) = c" "pos (clear c b) = c" "pos (read c b) = c"
  "pos (bf_write c b) = c" "pos (loop_open c b) = c" "pos (loop_close c b) = c"
  "pos (move src dst b) = src" "pos (copy src dst tmp b) = tmp" "pos (multiply a b' r t b) = a"
  "pos (divmod_10 base b) = base + 2"
  by (simp_all add: inc_def dec_def clear_def read_def bf_write_def loop_open_def loop_close_def
      move_def copy_def multiply_def divmod_10_def)

lemma code_move:
  "0 \<le> pos b \<Longrightarrow> 0 \<le> src \<Longrightarrow> 0 \<le> dst \<Longrightarrow>
   concat (code (move src dst b)) =
     concat (code b) @ flatten (go (nat (pos b)) (nat src) (moveP (nat src) (nat dst) Done))"
  by (simp add: move_def code_goto moveP_def flatten_go)


lemma code_divmod_10:
  "0 \<le> pos b \<Longrightarrow> 0 \<le> base \<Longrightarrow>
   concat (code (divmod_10 base b)) =
     concat (code b) @ flatten (divmodP (nat (pos b)) (nat base) Done)"
  by (simp add: divmod_10_def code_clear code_inc code_goto divmodP_def divP_def clearP_def
      flatten_go nat_add_distrib)

lemma code_print_number:
  "0 \<le> pos b \<Longrightarrow> 0 \<le> val \<Longrightarrow> 0 \<le> ws \<Longrightarrow>
   concat (code (print_number val ws b)) =
     concat (code b) @ flatten (printP (nat (pos b)) (nat val) (nat ws) Done)"
  apply (simp add: print_number_def stmts_def)
  apply (simp add: code_move code_divmod_10 code_inc code_dec code_clear code_write
      code_loop_open code_loop_close)
  apply (simp add: printP_def digitsP_def branchesP_def divmodP_def divP_def putP_def clearP_def
      moveP_def flatten_go nat_add_distrib)
  done

lemma pos_print_number [simp]: "pos (print_number val ws b) = ws + 12"
  by (simp add: print_number_def stmts_def)


section \<open>Decimal digits; well-formed macros\<close>

lemma digits_value_snoc: "digits_value (ds @ [d]) = 10 * digits_value ds + (d - 48)"
  by (simp add: digits_value_def)

lemma decimal_value: "digits_value (decimal n) = int n"
proof (induction n rule: decimal.induct)
  case (1 n)
  show ?case
  proof (cases "n < 10")
    case True
    then show ?thesis by (subst decimal.simps) (simp add: digits_value_def)
  next
    case False
    have "int n = int (10 * (n div 10) + n mod 10)" by simp
    then have "int n = 10 * int (n div 10) + int (n mod 10)"
      by (simp only: of_nat_add of_nat_mult of_nat_numeral)
    with False "1.IH" show ?thesis
      by (subst decimal.simps) (simp add: digits_value_snoc)
  qed
qed

lemma decimal_digits: "d \<in> set (decimal n) \<Longrightarrow> 48 \<le> d \<and> d \<le> 57"
proof (induction n rule: decimal.induct)
  case (1 n)
  show ?case
  proof (cases "n < 10")
    case True
    with "1.prems" show ?thesis by (subst (asm) decimal.simps) auto
  next
    case False
    have "n mod 10 < 10" by simp
    then have "int (n mod 10) \<le> 9" by linarith
    with False "1.prems" "1.IH" show ?thesis
      by (subst (asm) decimal.simps) auto
  qed
qed

lemma decimal_nonempty: "decimal n \<noteq> []"
  by (subst decimal.simps) simp

lemma decimal_leading: "n \<noteq> 0 \<Longrightarrow> hd (decimal n) \<noteq> 48"
proof (induction n rule: decimal.induct)
  case (1 n)
  show ?case
  proof (cases "n < 10")
    case True
    with "1.prems" show ?thesis by (subst decimal.simps) simp
  next
    case False
    then have "n div 10 \<noteq> 0" by simp
    with False "1.IH" show ?thesis
      by (subst decimal.simps) (simp add: decimal_nonempty)
  qed
qed

lemma decimal_0: "decimal 0 = [48]"
  by (subst decimal.simps) simp

lemma wf_go [simp]: "wf (go p c k) = wf k"
  by (auto simp: go_def simple_def)

lemma wf_clearP [simp]: "wf (clearP k) = wf k"
  by (simp add: clearP_def simple_def)

lemma wf_moveP [simp]: "wf (moveP a b k) = wf k"
  by (simp add: moveP_def simple_def)

lemma wf_divP [simp]: "wf (divP k) = wf k"
  by (simp add: divP_def simple_def)

lemma wf_divmodP [simp]: "wf (divmodP p b k) = wf k"
  by (simp add: divmodP_def simple_def)

lemma wf_putP [simp]: "wf (putP p c n k) = wf k"
  by (simp add: putP_def simple_def)

lemma wf_printP [simp]: "wf (printP p v w k) = wf k"
  by (simp add: printP_def digitsP_def branchesP_def simple_def)

lemma wf_multiplyP [simp]: "wf (multiplyP a b r t k) = wf k"
  by (simp add: multiplyP_def addP_def simple_def)


section \<open>One pass through the main loop\<close>

text \<open>
  The body of the main loop, started at the head of the loop on a coefficient \<open>c\<close> of degree
  \<open>i\<close>: followed by a space it prints \<open>c * i\<close> and a space and sets the flag again, followed
  by a newline it prints \<open>c * i\<close> and a newline and leaves the flag cleared.
\<close>

lemma body_big_space:
  assumes "c < 10" "c * i \<le> 255" "21 \<le> L" "q + 1 < length inp"
    "inp ! q = 48 + int c" "inp ! (q + 1) = 32"
  shows "big inp 256 bodyP (loop_state L 1 i q out) (body_steps i c False)
     (loop_state L 1 (Suc i) (q + 2) (out @ decimal (c * i) @ [32]))"
proof -
  define y where "y = i mod 256"
  have ci: "c * y = c * i"
  proof (cases "c = 0")
    case False
    then have "i \<le> 255" using assms(2) by (cases c) auto
    then show ?thesis by (simp add: y_def)
  qed simp
  have cy: "c * y \<le> 255" using assms(2) unfolding ci .
  then have "int (c * y) \<le> 255" by linarith
  then have b: "int c * int y \<le> 255" by (simp only: of_nat_mult)
  have y: "y < 256" "int y < 256" by (simp_all add: y_def)
  have y1: "int (Suc i mod 256) = (int y + 1) mod 256"
    by (simp add: y_def zmod_int mod_simps add.commute)
  show ?thesis
    unfolding big_wp loop_state_def y_def[symmetric] y1
    using assms b y cy
    apply (simp add: bodyP_def wp_go wp_ops wp_minuses nth_list_update dist_def)
    apply (subst wp_multiply)
    apply (simp_all add: nth_list_update)
    apply (subst wp_print[where v = "c * y"])
    apply (simp_all add: nth_list_update)
    apply (simp add: wp_go wp_ops wp_minuses nth_list_update dist_def wp_Skip wp_unfold wp_put
       newlineP_def spaceP_def ci)
    apply (rule conjI)
     apply (simp add: body_steps_def put_steps_def dist_def y_def)
    apply (intro tape_eqI; auto simp: nth_list_update)
    done
qed


lemma body_big_newline:
  assumes "c < 10" "c * i \<le> 255" "21 \<le> L" "q + 1 < length inp"
    "inp ! q = 48 + int c" "inp ! (q + 1) = 10"
  shows "big inp 256 bodyP (loop_state L 1 i q out) (body_steps i c True)
     (loop_state L 0 (Suc i) (q + 2) (out @ decimal (c * i) @ [10]))"
proof -
  define y where "y = i mod 256"
  have ci: "c * y = c * i"
  proof (cases "c = 0")
    case False
    then have "i \<le> 255" using assms(2) by (cases c) auto
    then show ?thesis by (simp add: y_def)
  qed simp
  have cy: "c * y \<le> 255" using assms(2) unfolding ci .
  then have "int (c * y) \<le> 255" by linarith
  then have b: "int c * int y \<le> 255" by (simp only: of_nat_mult)
  have y: "y < 256" "int y < 256" by (simp_all add: y_def)
  have y1: "int (Suc i mod 256) = (int y + 1) mod 256"
    by (simp add: y_def zmod_int mod_simps add.commute)
  show ?thesis
    unfolding big_wp loop_state_def y_def[symmetric] y1
    using assms b y cy
    apply (simp add: bodyP_def wp_go wp_ops wp_minuses nth_list_update dist_def)
    apply (subst wp_multiply)
    apply (simp_all add: nth_list_update)
    apply (subst wp_print[where v = "c * y"])
    apply (simp_all add: nth_list_update)
    apply (simp add: wp_go wp_ops wp_minuses nth_list_update dist_def wp_Skip wp_unfold wp_put
       newlineP_def spaceP_def wp_clear ci)
    apply (rule conjI)
     apply (simp add: body_steps_def put_steps_def dist_def y_def)
    apply (intro tape_eqI; auto simp: nth_list_update)
    done
qed

section \<open>The start of the program\<close>

text \<open>
  The program up to the main loop, on an input of at least two bytes: when the second byte is a
  space it reaches the head of the main loop with the flag set and the degree 1; otherwise it
  prints \<open>0\<close> and a newline and reaches the head of the loop with the flag cleared.
\<close>

lemma start_space:
  assumes "1 < length inp" "0 \<le> inp ! 0" "inp ! 0 < 256" "inp ! 1 = 32"
  shows "wp inp 256 (startP k) init_state u Q =
     wp inp 256 k (loop_state 30000 1 1 2 []) (u + (81 + 2 * nat (inp ! 0))) Q"
proof -
  have ne: "inp \<noteq> []" using assms(1) by auto
  show ?thesis
  using assms ne
  apply (simp add: startP_def init_state_def loop_state_def wp_go wp_ops wp_minuses wp_clear
      nth_list_update dist_def wp_Skip wp_unfold wp_put not_spaceP_def was_spaceP_def constantP_def)
  apply (rule wp_cong)
   apply (simp add: state_eq_iff)
   apply (intro tape_eqI; auto simp: nth_list_update)
  apply simp
  done
qed

lemma start_constant:
  assumes "1 < length inp" "0 \<le> inp ! 0" "inp ! 0 < 256" "0 \<le> inp ! 1" "inp ! 1 < 256"
     "inp ! 1 \<noteq> 32"
  shows "wp inp 256 (startP k) init_state u Q =
     wp inp 256 k (loop_state 30000 0 1 2 [48, 10]) (u + (260 + 2 * nat (inp ! 0) + 2 * nat ((inp ! 1 - 32) mod 256))) Q"
proof -
  have ne: "inp \<noteq> []" using assms(1) by auto
  have t: "(inp ! 1 - 32) mod 256 \<noteq> 0" using assms(4-6) by presburger
  show ?thesis
  using assms ne t
  apply (simp add: startP_def init_state_def loop_state_def wp_go wp_ops wp_minuses wp_clear
      nth_list_update dist_def wp_Skip wp_unfold wp_put not_spaceP_def was_spaceP_def constantP_def)
  apply (rule wp_cong)
   apply (simp add: state_eq_iff)
   apply (intro tape_eqI; auto simp: nth_list_update)
  apply (simp add: put_steps_def dist_def)
  done
qed

section \<open>The generated program\<close>

lemma generate_balanced: "balanced (filter is_op generate)"
  by code_simp

lemma generate_mainP: "generate = flatten mainP"
  by code_simp

lemma wf_mainP: "wf mainP"
  by (simp add: mainP_def startP_def bodyP_def spaceP_def newlineP_def constantP_def was_spaceP_def
      not_spaceP_def simple_def)

lemma filter_generate: "filter is_op generate = flatten mainP"
  using wf_is_op[OF wf_mainP] by (simp add: generate_mainP)

section \<open>The main loop\<close>

text \<open>
  The main loop, entered at a coefficient of degree \<open>i\<close> with the coefficients \<open>ds\<close> still in
  the input: it reads them all, prints their products with the degrees, and ends with the flag
  cleared. Then the input text and the expected output in the form the loop uses.
\<close>

lemma loop_state_simps [simp]:
  "ptr (loop_state L a i q out) = 0" "length (tape (loop_state L a i q out)) = L"
  "3 < L \<Longrightarrow> tape (loop_state L a i q out) ! 0 = a"
  "output_buf (loop_state L a i q out) = out" "input_pos (loop_state L a i q out) = q"
  "ip (loop_state L a i q out) = 0"
  by (simp_all add: loop_state_def)

lemma main_loop_big:
  "ds \<noteq> [] \<Longrightarrow> small i ds \<Longrightarrow> 21 \<le> L \<Longrightarrow> input_at inp q ds \<Longrightarrow>
   big inp 256 (Loop bodyP Done) (loop_state L 1 i q out) (loop_steps i ds)
     (loop_state L 0 (i + length ds) (q + 2 * length ds) (out @ out_from i ds))"
proof (induction i ds arbitrary: q out rule: out_from.induct)
  case (1 i)
  then show ?case by simp
next
  case (2 i c)
  then have b: "big inp 256 bodyP (loop_state L 1 i q out) (body_steps i c True)
     (loop_state L 0 (Suc i) (q + 2) (out @ decimal (c * i) @ [10]))"
    by (intro body_big_newline) simp_all
  have e: "big inp 256 (Loop bodyP Done) (loop_state L 0 (Suc i) (q + 2) (out @ decimal (c * i) @ [10]))
     (Suc 0) (loop_state L 0 (Suc i) (q + 2) (out @ decimal (c * i) @ [10]))"
    using 2(3) by (intro big_Skip big_Done) simp_all
  have "big inp 256 (Loop bodyP Done) (loop_state L 1 i q out) (Suc (body_steps i c True + Suc 0))
     (loop_state L 0 (Suc i) (q + 2) (out @ decimal (c * i) @ [10]))"
    using 2(3) by (intro big_Iter[OF _ _ b e]) simp_all
  then show ?case by simp
next
  case (3 i c c' ds)
  then have b: "big inp 256 bodyP (loop_state L 1 i q out) (body_steps i c False)
     (loop_state L 1 (Suc i) (q + 2) (out @ decimal (c * i) @ [32]))"
    by (intro body_big_space) simp_all
  have e: "big inp 256 (Loop bodyP Done) (loop_state L 1 (Suc i) (q + 2) (out @ decimal (c * i) @ [32]))
     (loop_steps (Suc i) (c' # ds))
     (loop_state L 0 (Suc i + length (c' # ds)) (q + 2 + 2 * length (c' # ds))
        ((out @ decimal (c * i) @ [32]) @ out_from (Suc i) (c' # ds)))"
    using 3(2-) by (intro 3(1)) simp_all
  have "big inp 256 (Loop bodyP Done) (loop_state L 1 i q out)
     (Suc (body_steps i c False + loop_steps (Suc i) (c' # ds)))
     (loop_state L 0 (Suc i + length (c' # ds)) (q + 2 + 2 * length (c' # ds))
        ((out @ decimal (c * i) @ [32]) @ out_from (Suc i) (c' # ds)))"
    using 3(4) by (intro big_Iter[OF _ _ b e]) simp_all
  then show ?case by simp
qed

lemma of_char_digit: "c < 10 \<Longrightarrow> of_char (digit c) = 48 + int c"
proof -
  assume c: "c < 10"
  have "(of_char (digit c) :: int) = int (of_char (digit c))" by (simp only: of_nat_of_char)
  also have "\<dots> = int ((48 + c) mod 256)" by (simp only: digit_def of_char_of)
  also have "\<dots> = 48 + int c" using c by simp
  finally show ?thesis .
qed

lemma input_at_coeffs:
  "small i ds \<Longrightarrow> input_at (pre @ map of_char (coeffs ds) @ [10]) (length pre) ds"
proof (induction ds arbitrary: pre i rule: coeffs.induct)
  case 1
  then show ?case by simp
next
  case (2 c)
  then show ?case by (simp add: of_char_digit nth_append)
next
  case (3 c c' ds)
  from 3(2) have s: "small (Suc i) (c' # ds)" by simp
  from 3(1)[OF s, of "pre @ [of_char (digit c), 32]"] 3(2)
  show ?case by (simp add: of_char_digit nth_append)
qed

lemma zip_upt_Cons:
  "map (\<lambda>(c, i). c * i) (zip (c # ds) [i..<i + length (c # ds)]) =
   c * i # map (\<lambda>(c, i). c * i) (zip ds [Suc i..<Suc i + length ds])"
proof -
  have "[i..<i + length (c # ds)] = i # [Suc i..<Suc i + length ds]"
    by (simp add: upt_conv_Cons del: upt_Suc)
  then show ?thesis by simp
qed

lemma out_from_spaced:
  "ds \<noteq> [] \<Longrightarrow>
   spaced (map decimal (map (\<lambda>(c, i). c * i) (zip ds [i..<i + length ds]))) @ [10] = out_from i ds"
proof (induction i ds rule: out_from.induct)
  case (1 i)
  then show ?case by simp
next
  case (2 i c)
  show ?case by (simp only: zip_upt_Cons) simp
next
  case (3 i c c' ds)
  then have "spaced (map decimal (map (\<lambda>(c, i). c * i)
      (zip (c' # ds) [Suc i..<Suc i + length (c' # ds)]))) @ [10] = out_from (Suc i) (c' # ds)"
    by simp
  then show ?case by (simp only: zip_upt_Cons) simp
qed

lemma expected_output_out_from:
  "ds \<noteq> [] \<Longrightarrow> expected_output (c0 # ds) = out_from 1 ds"
  using out_from_spaced[of ds 1] by (simp add: expected_output_def derivative_def)

lemma small_nth:
  "small i ds = (\<forall>j<length ds. ds ! j < 10 \<and> ds ! j * (i + j) \<le> 255)"
proof (induction ds arbitrary: i)
  case Nil
  then show ?case by simp
next
  case (Cons c ds)
  show ?case by (simp add: Cons.IH All_less_Suc2)
qed

section \<open>The whole program\<close>

text \<open>
  The generated program on the text of at least two coefficients, and on a text whose second
  byte is not a space.
\<close>

lemma main_big:
  assumes "ds \<noteq> []" "c0 < 10" "small 1 ds"
  shows "big (map of_char (poly_input (c0 # ds))) 256 mainP init_state (main_steps (c0 # ds))
     (loop_state 30000 0 (1 + length ds) (2 + 2 * length ds) (out_from 1 ds))"
proof -
  let ?inp = "map of_char (poly_input (c0 # ds)) :: int list"
  obtain d ds' where ds: "ds = d # ds'" using assms(1) by (cases ds) auto
  have inp: "?inp = [of_char (digit c0), 32] @ map of_char (coeffs ds) @ [10]"
    by (simp add: poly_input_def ds)
  have ia: "input_at ?inp 2 ds"
    using input_at_coeffs[OF assms(3), of "[of_char (digit c0), 32]"]
    by (simp add: inp numeral_2_eq_2)
  have l: "big ?inp 256 (Loop bodyP Done) (loop_state 30000 1 1 2 []) (loop_steps 1 ds)
     (loop_state 30000 0 (1 + length ds) (2 + 2 * length ds) ([] @ out_from 1 ds))"
    by (rule main_loop_big[OF assms(1,3) _ ia]) simp
  have i: "1 < length ?inp" "0 \<le> ?inp ! 0" "?inp ! 0 < 256" "?inp ! 1 = 32" "?inp ! 0 = 48 + int c0"
    using assms(2) by (simp_all add: inp of_char_digit)
  show ?thesis
    unfolding big_wp mainP_def
    by (simp only: start_space[OF i(1-4)] wp_Loop[OF l] wp_Done i(5)) simp
qed

lemma constant_big:
  assumes "t \<noteq> CHR '' ''"
  shows "big (map of_char (c0 # t # rest)) 256 mainP init_state
     (constant_steps (of_char c0) (of_char t)) (loop_state 30000 0 1 2 [48, 10])"
proof -
  let ?inp = "map of_char (c0 # t # rest) :: int list"
  have b: "0 \<le> (of_char c :: int) \<and> (of_char c :: int) < 256" for c
  proof -
    have "(of_char c :: int) = int (of_char c)" by (simp only: of_nat_of_char)
    then show ?thesis using nat_of_char_less_256[of c] by linarith
  qed
  have "(of_char t :: int) = of_char CHR '' '' \<Longrightarrow> t = CHR '' ''"
    by (simp only: of_char_eq_iff)
  then have ne: "(of_char t :: int) \<noteq> 32" using assms by auto
  have i: "1 < length ?inp" "0 \<le> ?inp ! 0" "?inp ! 0 < 256" "0 \<le> ?inp ! 1" "?inp ! 1 < 256"
    "?inp ! 1 \<noteq> 32"
    using b[of c0] b[of t] ne by simp_all
  have s: "big ?inp 256 (Loop bodyP Done) (loop_state 30000 0 1 2 [48, 10]) (Suc 0)
     (loop_state 30000 0 1 2 [48, 10])"
    by (intro big_Skip big_Done) simp_all
  show ?thesis
    unfolding big_wp mainP_def
    by (simp only: start_constant[OF i] wp_Loop[OF s] wp_Done) (simp add: constant_steps_def)
qed

lemma run_bf_derivative:
  assumes "ds \<noteq> []" "c0 < 10" "small 1 ds" "int (main_steps (c0 # ds)) \<le> m"
  shows "run_bf generate (poly_input (c0 # ds)) 256 m = Inr (out_from 1 ds)"
  using run_bf_big[OF wf_mainP filter_generate main_big[OF assms(1-3)] assms(4)] by simp

lemma run_from_constant:
  assumes "t \<noteq> CHR '' ''" "int (constant_steps (of_char c0) (of_char t)) \<le> m"
  shows "run_from generate (map of_char (c0 # t # rest)) 256 m init_state =
     Inr ((loop_state 30000 0 1 2 [48, 10])\<lparr>ip := length (flatten mainP)\<rparr>)"
  using run_from_big[OF wf_mainP filter_generate constant_big[OF assms(1)] _ assms(2)]
  by (simp add: init_state_def)

lemma constant_steps_bound: "constant_steps (of_char c0) (of_char t) \<le> 1281"
proof -
  have b: "0 \<le> (of_char c :: int) \<and> (of_char c :: int) < 256" for c
  proof -
    have "(of_char c :: int) = int (of_char c)" by (simp only: of_nat_of_char)
    then show ?thesis using nat_of_char_less_256[of c] by linarith
  qed
  have "nat (of_char c0) \<le> 255" using b[of c0] by linarith
  moreover have "nat ((of_char t - 32) mod 256) \<le> 255" by simp
  ultimately show ?thesis unfolding constant_steps_def by linarith
qed


section \<open>The pointer follows the cursor\<close>







lemma net_ops_of: "net (ops_of cs k) = map_option (\<lambda>d. sum_list (map shift cs) + d) (net k)"
  by (induction cs) (simp_all add: option.map_comp comp_def option.map_ident add.assoc)

lemma net_go: "net (go p c k) = map_option (\<lambda>d. int c - int p + d) (net k)"
proof -
  have "sum_list (map shift (replicate n CHR ''>'')) = int n" for n
    by (induction n) (simp_all add: shift_def)
  moreover have "sum_list (map shift (replicate n CHR ''<'')) = - int n" for n
    by (induction n) (simp_all add: shift_def)
  ultimately show ?thesis
    by (cases "p \<le> c")
      (simp_all add: go_def net_ops_of option.map_comp comp_def option.map_ident)
qed


lemma net_macros [simp]:
  "net (clearP k) = net k" "net (moveP src dst k) = net k"
  "net (copyP src dst tmp k) = map_option (\<lambda>d. int tmp - int src + d) (net k)"
  "net (multiplyP a b r t k) = net k"
  by (simp_all add: clearP_def moveP_def copyP_def multiplyP_def addP_def net_go shift_def
      option.map_comp comp_def option.map_ident)


lemma wf_copyP [simp]: "wf (copyP src dst tmp k) = wf k"
  by (simp add: copyP_def simple_def)











section \<open>Loading a program\<close>

text \<open>
  C6. A program whose brackets are not balanced never reaches the execution phase. Either its
  instructions are \<open>w @ ] # rest\<close> with \<open>w\<close> balanced, so that this \<open>]\<close>, at position
  \<open>length w\<close>, is met with an empty stack, and \<open>run_bf\<close> fails with \<open>Unmatched ]\<close> at that
  position; or they are \<open>w0 @ [ # w1\<close> with \<open>w1\<close> balanced, so that this \<open>[\<close>, at position
  \<open>length w0\<close>, is the last one left open, and \<open>run_bf\<close> fails with \<open>Unmatched [\<close> at that
  position. The failure is the same for every input, cell size and step budget (also a budget
  of 0, which no executed instruction survives): nothing is executed, nothing is output.
\<close>

theorem unbalanced_fails_to_load:
  assumes "\<not> balanced (filter is_op program)"
  shows "(\<exists>w rest. filter is_op program = w @ CHR '']'' # rest \<and> balanced w \<and>
            (\<forall>inp cs m. run_bf program inp cs m = Inl (UnmatchedClose (length w)))) \<or>
         (\<exists>w0 w1. filter is_op program = w0 @ CHR ''['' # w1 \<and> balanced w1 \<and>
            (\<forall>inp cs m. run_bf program inp cs m = Inl (UnmatchedOpen (length w0))))"
proof (cases "depth (filter is_op program) 0")
  case None
  from depth_None_split[OF this] obtain w rest where
    w: "filter is_op program = w @ CHR '']'' # rest" "balanced w" by (auto simp: balanced_def)
  have "run_bf program inp cs m = Inl (UnmatchedClose (length w))" for inp cs m
    using match_brackets_close[OF w(2), of rest] w(1) by (simp add: run_bf_def)
  with w show ?thesis by blast
next
  case (Some d')
  with assms have "d' \<noteq> 0" by (auto simp: balanced_def)
  with depth_Some_split[OF Some] obtain w0 w1 where
    w: "filter is_op program = w0 @ CHR ''['' # w1" "balanced w1" by auto
  from Some w(1) obtain m where "depth w0 0 = Some m"
    by (auto simp: depth_append split: option.splits)
  from match_brackets_open[OF this w(2)] obtain st br where
    "match_brackets (w0 @ CHR ''['' # w1) 0 [] Map.empty = Inr (length w0 # st, br)" by blast
  then have "run_bf program inp cs m = Inl (UnmatchedOpen (length w0))" for inp cs m
    using w(1) by (simp add: run_bf_def)
  with w show ?thesis by blast
qed

theorem unbalanced_fails_to_load_witness:
  "\<not> balanced (filter is_op ''+[x[-]'') \<and>
   run_bf ''+[x[-]'' ''a'' 256 0 = Inl (UnmatchedOpen 1)"
proof -
  have h: "\<not> balanced (filter is_op ''+[x[-]'')" by (simp add: balanced_def is_op_def)
  have r: "run_bf ''+[x[-]'' ''a'' 256 0 = Inl (UnmatchedOpen 1)"
    by (simp add: run_bf_def is_op_def)
  from unbalanced_fails_to_load[OF h] h r show ?thesis by blast
qed


text \<open>
  C10. The program \<open>generate\<close> returns consists of the eight instruction characters only (the
  filter of \<open>run_bf\<close> leaves it as it is), its brackets are balanced, and \<open>run_bf\<close> never fails
  on it with one of the two structural errors, whatever the input, cell size and step budget.
\<close>

theorem generate_loads:
  "filter is_op generate = generate \<and> balanced generate \<and>
   (\<forall>inp cs m i. run_bf generate inp cs m \<noteq> Inl (UnmatchedClose i) \<and>
                 run_bf generate inp cs m \<noteq> Inl (UnmatchedOpen i))"
proof -
  have 1: "filter is_op generate = generate"
    by (simp add: generate_def bf_output_def)
  have 2: "balanced generate" using generate_balanced 1 by simp
  have 3: "run_bf generate inp cs m \<noteq> Inl (UnmatchedClose i) \<and>
           run_bf generate inp cs m \<noteq> Inl (UnmatchedOpen i)" for inp cs m i
  proof -
    from run_bf_balanced[OF generate_balanced, of inp cs m] obtain br where
      r: "run_bf generate inp cs m =
        (case exec_loop (filter is_op generate) br (map of_char inp) cs m 0 init_state of
           Inl e \<Rightarrow> Inl e | Inr s \<Rightarrow> Inr (output_buf s))" by blast
    show ?thesis
    proof (cases "exec_loop (filter is_op generate) br (map of_char inp) cs m 0 init_state")
      case (Inl e)
      from exec_loop_error[OF Inl] r Inl show ?thesis by auto
    next
      case (Inr s)
      with r show ?thesis by simp
    qed
  qed
  from 1 2 3 show ?thesis by blast
qed

theorem generate_loads_witness:
  "run_bf generate ''7'' 256 100 \<noteq> Inl (UnmatchedClose 0)"
  using generate_loads by blast


section \<open>Failures of the interpreter\<close>

text \<open>
  C7. Failure propagation. (1) When the instruction to execute is \<open><\<close> and the data pointer is
  0, the run stops there with the bounds error, whose message holds the step count and no
  output. (2) The step budget is checked before every instruction, whatever it is: once the
  incremented counter is above \<open>max_steps\<close> the run stops with the budget failure, which holds
  the output buffer as it is at that point. (3) Of all failures of \<open>run_bf\<close>, only the budget
  failure holds output. (4) The output it holds is output of the run: a run of the same program
  and input with a larger budget outputs (or, failing on its budget again, holds) an extension
  of it.
\<close>

theorem failure_propagation:
  "(ip s < length ops \<and> int (st + 1) \<le> m \<and> ops ! ip s = CHR ''<'' \<and> ptr s = 0 \<longrightarrow>
      exec_loop ops br inp cs m st s = Inl (PointerBelowZero (st + 1)) \<and>
      partial_output (PointerBelowZero (st + 1)) = None) \<and>
   (ip s < length ops \<and> int (st + 1) > m \<longrightarrow>
      exec_loop ops br inp cs m st s = Inl (Exceeded m (output_buf s))) \<and>
   (run_bf program input_str cs m = Inl e \<longrightarrow>
      (partial_output e = None \<or> (\<exists>out. e = Exceeded m out))) \<and>
   (run_bf program input_str cs m = Inl (Exceeded m out) \<and> m \<le> m' \<longrightarrow>
      (case run_bf program input_str cs m' of
         Inr out' \<Rightarrow> \<exists>ys. out' = out @ ys
       | Inl e' \<Rightarrow> (case partial_output e' of None \<Rightarrow> True | Some out' \<Rightarrow> \<exists>ys. out' = out @ ys)))"
proof -
  have 1: "exec_loop ops br inp cs m st s = Inl (PointerBelowZero (st + 1))"
    if "ip s < length ops" "int (st + 1) \<le> m" "ops ! ip s = CHR ''<''" "ptr s = 0"
    using that by (simp add: exec_loop.simps[of ops br inp cs m st s] exec_op_def)
  have 2: "exec_loop ops br inp cs m st s = Inl (Exceeded m (output_buf s))"
    if "ip s < length ops" "int (st + 1) > m"
    using that by (simp add: exec_loop.simps[of ops br inp cs m st s])
  have 3: "partial_output e = None \<or> (\<exists>out. e = Exceeded m out)"
    if r: "run_bf program input_str cs m = Inl e"
  proof (cases "match_brackets (filter is_op program) 0 [] Map.empty")
    case (Inl e')
    with r have "e = e'" by (simp add: run_bf_def)
    moreover have "\<exists>i. e' = UnmatchedClose i"
      using match_brackets_error[OF Inl] .
    ultimately show ?thesis by auto
  next
    case (Inr p)
    obtain stack brackets where p: "p = (stack, brackets)" by (cases p)
    show ?thesis
    proof (cases "stack = []")
      case False
      with r Inr p show ?thesis by (auto simp: run_bf_def)
    next
      case True
      with r Inr p have "exec_loop (filter is_op program) brackets (map of_char input_str) cs m 0
          init_state = Inl e"
        by (auto simp: run_bf_def split: sum.splits)
      from exec_loop_error[OF this] show ?thesis by auto
    qed
  qed
  have 4: "(case run_bf program input_str cs m' of
         Inr out' \<Rightarrow> \<exists>ys. out' = out @ ys
       | Inl e' \<Rightarrow> (case partial_output e' of None \<Rightarrow> True | Some out' \<Rightarrow> \<exists>ys. out' = out @ ys))"
    if r: "run_bf program input_str cs m = Inl (Exceeded m out)" and le: "m \<le> m'"
  proof (cases "match_brackets (filter is_op program) 0 [] Map.empty")
    case (Inl e')
    with r show ?thesis by (simp add: run_bf_def)
  next
    case (Inr p)
    obtain stack brackets where p: "p = (stack, brackets)" by (cases p)
    show ?thesis
    proof (cases "stack = []")
      case False
      with r Inr p show ?thesis by (auto simp: run_bf_def)
    next
      case True
      with r Inr p have "exec_loop (filter is_op program) brackets (map of_char input_str) cs m 0
          init_state = Inl (Exceeded m out)"
        by (auto simp: run_bf_def split: sum.splits)
      from exec_loop_budget_mono[OF this le] True Inr p show ?thesis
        by (auto simp: run_bf_def split: sum.splits)
    qed
  qed
  show ?thesis
  proof (intro conjI impI)
    assume "ip s < length ops \<and> int (st + 1) \<le> m \<and> ops ! ip s = CHR ''<'' \<and> ptr s = 0"
    then show "exec_loop ops br inp cs m st s = Inl (PointerBelowZero (st + 1))"
      using 1 by blast
  next
    show "partial_output (PointerBelowZero (st + 1)) = None" by simp
  next
    assume "ip s < length ops \<and> int (st + 1) > m"
    then show "exec_loop ops br inp cs m st s = Inl (Exceeded m (output_buf s))"
      using 2 by blast
  next
    assume "run_bf program input_str cs m = Inl e"
    then show "partial_output e = None \<or> (\<exists>out. e = Exceeded m out)" by (rule 3)
  next
    assume "run_bf program input_str cs m = Inl (Exceeded m out) \<and> m \<le> m'"
    then show "case run_bf program input_str cs m' of
         Inr out' \<Rightarrow> \<exists>ys. out' = out @ ys
       | Inl e' \<Rightarrow> (case partial_output e' of None \<Rightarrow> True | Some out' \<Rightarrow> \<exists>ys. out' = out @ ys)"
      using 4 by blast
  qed
qed

theorem failure_propagation_witness:
  "exec_loop ''<'' Map.empty [] 256 3 0 init_state = Inl (PointerBelowZero 1) \<and>
   exec_loop ''<'' Map.empty [] 256 0 0 init_state = Inl (Exceeded 0 []) \<and>
   run_bf ''+.+.+.'' '''' 256 3 = Inl (Exceeded 3 [1]) \<and>
   run_bf ''+.+.+.'' '''' 256 5 = Inl (Exceeded 5 [1, 2]) \<and>
   (\<exists>ys. [1, 2] = [1::int] @ ys)"
proof -
  have a: "exec_loop ''<'' Map.empty [] 256 3 0 init_state = Inl (PointerBelowZero 1)"
    using failure_propagation[of init_state "''<''" 0 3 Map.empty "[]" 256]
    by (simp add: init_state_def)
  have b: "exec_loop ''<'' Map.empty [] 256 0 0 init_state = Inl (Exceeded 0 [])"
    using failure_propagation[of init_state "''<''" 0 0 Map.empty "[]" 256]
    by (simp add: init_state_def)
  have c: "run_bf ''+.+.+.'' '''' 256 3 = Inl (Exceeded 3 [1])"
    by (simp add: run_bf_def is_op_def exec_loop.simps exec_op_def init_state_def)
  have d: "run_bf ''+.+.+.'' '''' 256 5 = Inl (Exceeded 5 [1, 2])"
    by (simp add: run_bf_def is_op_def exec_loop.simps exec_op_def init_state_def)
  have e: "\<exists>ys. [1, 2] = [1::int] @ ys"
    using failure_propagation[of _ _ _ 3 _ _ 256 "''+.+.+.''" "''''" _ "[1]" 5] c d by simp
  from a b c d e show ?thesis by blast
qed
text \<open>
  C3, at the input that breaks it. With \<open>cell_size = 16\<close>, the program \<open>,\<close> on the input
  \<open>A\<close> ends with 65 in cell 0: \<open>Read\<close> stores the input byte as it is, where \<open>+\<close> and \<open>-\<close>
  reduce modulo \<open>cell_size\<close>.
\<close>

theorem read_stores_byte_unreduced:
  "\<exists>s. exec_loop '','' Map.empty (map of_char ''A'') 16 1000000 0 init_state = Inr s \<and>
        tape s ! 0 = 65 \<and> \<not> (tape s ! 0 < 16)"
  by (simp add: exec_loop.simps exec_op_def init_state_def)


section \<open>The macros on a prepared tape\<close>

text \<open>
  C5. \<open>print_number(val_cell, ws)\<close>, emitted with the cursor at \<open>p0\<close> and run on a machine whose
  pointer is at \<open>p0\<close>, whose cell \<open>val_cell\<close> (outside the workspace) holds \<open>v \<le> 255\<close> and
  whose 14 workspace cells are zero, with 8-bit cells and a step budget of at least
  \<open>print_steps\<close>: the run ends, the output grows by exactly \<open>decimal v\<close>, and the tape is the
  one before with \<open>val_cell\<close> set to 0 (the workspace is zero again). \<open>decimal v\<close> consists of
  digit codes, denotes \<open>v\<close>, is \<open>0\<close> for \<open>v = 0\<close> and otherwise does not begin with \<open>0\<close>.
\<close>

theorem print_number_prints_decimal:
  assumes "0 \<le> p0" "0 \<le> val_cell" "0 \<le> ws" "val_cell < ws \<or> ws + 13 < val_cell"
    "nat val_cell < length (tape s)" "nat ws + 13 < length (tape s)"
    "ptr s = nat p0" "ip s = 0"
    "tape s ! nat val_cell = int v" "v \<le> 255" "\<forall>i<14. tape s ! (nat ws + i) = 0"
    "int (print_steps (nat p0) (nat val_cell) (nat ws) v) \<le> max_steps"
  shows "\<exists>s'. run_from (bf_output (print_number val_cell ws (bf_at p0))) inp 256 max_steps s = Inr s' \<and>
     output_buf s' = output_buf s @ decimal v \<and>
     tape s' = (tape s)[nat val_cell := 0] \<and>
     digits_value (decimal v) = int v \<and> (\<forall>d\<in>set (decimal v). 48 \<le> d \<and> d \<le> 57) \<and>
     (v = 0 \<longrightarrow> decimal v = [48]) \<and> (v \<noteq> 0 \<longrightarrow> hd (decimal v) \<noteq> 48)"
proof -
  let ?p = "printP (nat p0) (nat val_cell) (nat ws) Done"
  let ?s' = "s\<lparr>tape := (tape s)[nat val_cell := 0], ptr := nat ws + 12,
                output_buf := output_buf s @ decimal v\<rparr>"
  let ?n = "print_steps (nat p0) (nat val_cell) (nat ws) v"
  have w: "wf ?p" by simp
  have c: "filter is_op (bf_output (print_number val_cell ws (bf_at p0))) = flatten ?p"
    using assms(1-3) code_print_number[of "bf_at p0" val_cell ws] wf_is_op[OF w]
    by (simp add: bf_output_def bf_at_def)
  have o: "nat val_cell < nat ws \<or> nat ws + 13 < nat val_cell"
    using assms(2-4) by linarith
  have "wp inp 256 ?p s 0 (\<lambda>N t. N = ?n \<and> t = ?s')"
    using wp_print[OF assms(7,5,6) o assms(9,10,11), of inp Done 0] by simp
  then have "big inp 256 ?p s ?n ?s'" by (simp only: big_wp)
  from run_from_big[OF w c this assms(8,12)] decimal_value[of v] decimal_digits[of _ v]
    decimal_0 decimal_leading[of v]
  show ?thesis by auto
qed

theorem print_number_prints_decimal_witness:
  "\<exists>s'. run_from (bf_output (print_number 4 7 (bf_at 0))) [] 256 1000000
          (init_state\<lparr>tape := (tape init_state)[4 := 120]\<rparr>) = Inr s' \<and>
        output_buf s' = [49, 50, 48] \<and> tape s' ! 4 = 0"
proof -
  let ?s = "init_state\<lparr>tape := (tape init_state)[4 := 120]\<rparr>"
  have d: "decimal 120 = [49, 50, 48]" by code_simp
  have st: "int (print_steps (nat 0) (nat 4) (nat 7) 120) \<le> 1000000" by code_simp
  have z: "\<forall>i<14. tape ?s ! (nat 7 + i) = 0" by (simp add: init_state_def)
  have t: "tape ?s ! nat 4 = int 120" by (simp add: init_state_def)
  have l: "nat 4 < length (tape ?s)" "nat 7 + 13 < length (tape ?s)" "ptr ?s = nat 0" "ip ?s = 0"
    by (simp_all add: init_state_def)
  from print_number_prints_decimal[of 0 4 7 ?s 120 1000000 "[]", OF _ _ _ _ l t _ z st]
  obtain s' where "run_from (bf_output (print_number 4 7 (bf_at 0))) [] 256 1000000 ?s = Inr s'"
    "output_buf s' = output_buf ?s @ decimal 120" "tape s' = (tape ?s)[nat 4 := 0]"
    by auto
  then show ?thesis by (auto simp: d init_state_def)
qed

text \<open>
  C4, at an input that breaks it. \<open>divmod_10(0)\<close> run on a tape whose window \<open>[0, 5]\<close> holds
  the dividend 1 in cell 1 and zeros elsewhere, and whose cell 6 holds 1: the loop tests cell
  \<open>base + 6\<close>, finds it set and goes astray. The run ends with the pointer on cell 5 where the
  emitter's cursor says 2, so that the final \<open>clear\<close> clears cell 5, and the divisor cell 2
  keeps 9.
\<close>

theorem divmod_10_reads_cell_base_plus_6:
  "\<exists>s'. run_from (bf_output (divmod_10 0 bf_init)) [] 256 1000
          (init_state\<lparr>tape := (tape init_state)[1 := 1, 6 := 1]\<rparr>) = Inr s' \<and>
        tape s' ! 2 = 9 \<and> tape s' ! 3 = 1 \<and> tape s' ! 4 = 0 \<and> ptr s' = 5 \<and>
        pos (divmod_10 0 bf_init) = 2"
proof -
  let ?s = "init_state\<lparr>tape := (tape init_state)[1 := 1, 6 := 1]\<rparr>"
  let ?s' = "\<lparr>tape = (replicate 30000 0)[2 := 9, 3 := 1, 7 := 1], ptr = 5, ip = 0,
              input_pos = 0, output_buf = []\<rparr>"
  let ?p = "divmodP 0 0 Done"
  have w: "wf ?p" by simp
  have c: "filter is_op (bf_output (divmod_10 0 bf_init)) = flatten ?p"
    using code_divmod_10[of bf_init 0] wf_is_op[OF w] by (simp add: bf_output_def bf_init_def)
  have "wp [] 256 ?p ?s 0 (\<lambda>N t. N = 56 \<and> t = ?s')"
    apply (simp add: divmodP_def divP_def clearP_def init_state_def go_def wp_pluses wp_ops
        wp_unfold wp_Skip nth_list_update)
    apply (intro tape_eqI; auto simp: nth_list_update)
    done
  then have "big [] 256 ?p ?s 56 ?s'" by (simp only: big_wp)
  from run_from_big[OF w c this, of 1000] show ?thesis
    by (simp add: init_state_def)
qed

text \<open>
  What holds of \<open>divmod_10\<close>: when cell \<open>base + 6\<close> is zero as well (the cells \<open>base + 1\<close> to
  \<open>base + 6\<close> are the ones the code reads and writes), the remainder and the quotient are
  exact and the divisor cell is cleared.
\<close>

lemma divmod_10_seven_cells:
  assumes "0 \<le> p0" "0 \<le> base" "nat base + 6 < length (tape s)" "ptr s = nat p0" "ip s = 0"
    "tape s ! (nat base + 1) = int n" "n < 256"
    "\<forall>i\<in>{0, 2, 3, 4, 5, 6}. tape s ! (nat base + i) = 0"
    "int (divmod_steps (nat p0) (nat base) n) \<le> max_steps"
  shows "\<exists>s'. run_from (bf_output (divmod_10 base (bf_at p0))) inp 256 max_steps s = Inr s' \<and>
     tape s' ! (nat base + 3) = int (n mod 10) \<and> tape s' ! (nat base + 4) = int (n div 10) \<and>
     tape s' ! (nat base + 2) = 0 \<and> ptr s' = nat base + 2"
proof -
  let ?b = "nat base"
  let ?p = "divmodP (nat p0) ?b Done"
  let ?s' = "s\<lparr>tape := (tape s)[?b + 1 := 0, ?b + 3 := (tape s ! (?b + 1)) mod 10,
        ?b + 4 := (tape s ! (?b + 1)) div 10], ptr := ?b + 2\<rparr>"
  let ?n = "divmod_steps (nat p0) ?b (nat (tape s ! (?b + 1)))"
  have w: "wf ?p" by simp
  have c: "filter is_op (bf_output (divmod_10 base (bf_at p0))) = flatten ?p"
    using assms(1,2) code_divmod_10[of "bf_at p0" base] wf_is_op[OF w]
    by (simp add: bf_output_def bf_at_def)
  have "wp inp 256 ?p s 0 (\<lambda>N t. N = ?n \<and> t = ?s')"
    using assms(3-8) by (subst wp_divmod) simp_all
  then have "big inp 256 ?p s ?n ?s'" by (simp only: big_wp)
  from run_from_big[OF w c this assms(5)] assms(3,6,8,9) show ?thesis
    by (simp add: zmod_int zdiv_int)
qed


section \<open>The derivative calculator\<close>

text \<open>
  C1. For every digit sequence \<open>c0 c1 ... ck\<close> with \<open>k \<ge> 1\<close>, each digit in 0-9 and every
  product \<open>ci * i\<close> at most 255, \<open>run_bf\<close> on the program returned by \<open>generate\<close> and the
  input \<open>c0 c1 ... ck\<close> followed by a newline, with 8-bit cells and a step budget of at least
  \<open>main_steps\<close> (the exact number of steps of the run), returns exactly the decimal numbers
  \<open>c1 * 1\<close>, ..., \<open>ck * k\<close> separated by single spaces and followed by a newline.
\<close>

theorem derivative_of_digit_sequence:
  assumes "2 \<le> length cs" "\<forall>i<length cs. cs ! i < 10 \<and> cs ! i * i \<le> 255"
    "int (main_steps cs) \<le> max_steps"
  shows "run_bf generate (poly_input cs) 256 max_steps = Inr (expected_output cs)"
proof -
  obtain c0 d ds where cs: "cs = c0 # d # ds"
    using assms(1) by (cases cs; cases "tl cs") auto
  have "small 0 cs" using assms(2) by (simp only: small_nth) simp
  then have s: "c0 < 10" "small 1 (d # ds)" by (simp_all add: cs)
  have "run_bf generate (poly_input (c0 # d # ds)) 256 max_steps = Inr (out_from 1 (d # ds))"
    using assms(3) by (intro run_bf_derivative s) (simp_all add: cs)
  moreover have "expected_output (c0 # d # ds) = out_from 1 (d # ds)"
    by (rule expected_output_out_from) simp
  ultimately show ?thesis by (simp only: cs)
qed

theorem derivative_of_digit_sequence_witness:
  "poly_input [1, 5, 0, 3] = ''1 5 0 3'' @ [CHR 0x0A] \<and>
   run_bf generate (poly_input [1, 5, 0, 3]) 256 1000000 = Inr [53, 32, 48, 32, 57, 10]"
proof -
  let ?cs = "[1, 5, 0, 3] :: nat list"
  have l: "2 \<le> length ?cs" by simp
  have d: "\<forall>i<length ?cs. ?cs ! i < 10 \<and> ?cs ! i * i \<le> 255"
    by (simp add: All_less_Suc2)
  have m: "int (main_steps [1, 5, 0, 3]) \<le> 1000000" by code_simp
  have e: "expected_output [1, 5, 0, 3] = [53, 32, 48, 32, 57, 10]" by code_simp
  have p: "poly_input [1, 5, 0, 3] = ''1 5 0 3'' @ [CHR 0x0A]" by code_simp
  from derivative_of_digit_sequence[OF l d m] e p show ?thesis by simp
qed

text \<open>
  C2, at an input that breaks it. The zero polynomial written with three coefficients,
  \<open>0 0 0\<close> and a newline: the program prints \<open>0 0\<close> and a newline, one number for each
  coefficient after the constant, not the single \<open>0\<close> of the claim.
\<close>

theorem zero_polynomial_prints_every_coefficient:
  "poly_input [0, 0, 0] = ''0 0 0'' @ [CHR 0x0A] \<and>
   run_bf generate (poly_input [0, 0, 0]) 256 1000000 = Inr [48, 32, 48, 10] \<and>
   run_bf generate (poly_input [0, 0, 0]) 256 1000000 \<noteq> Inr [48, 10]"
proof -
  have m: "int (main_steps [0, 0, 0]) \<le> 1000000" by code_simp
  have e: "out_from 1 [0, 0] = [48, 32, 48, 10]" by code_simp
  have p: "poly_input [0, 0, 0] = ''0 0 0'' @ [CHR 0x0A]" by code_simp
  have "run_bf generate (poly_input [0, 0, 0]) 256 1000000 = Inr (out_from 1 [0, 0])"
    using m by (intro run_bf_derivative) simp_all
  then have r: "run_bf generate (poly_input [0, 0, 0]) 256 1000000 = Inr [48, 32, 48, 10]"
    by (simp only: e)
  show ?thesis unfolding r using p by simp
qed

text \<open>
  C2, amended. A bare constant: on every input whose second byte is not a space (whatever the
  first byte and the rest), with 8-bit cells and a budget of at least 1281 steps, the program
  prints exactly \<open>0\<close> and a newline, and it ends having read two bytes of the input, the
  constant and its terminator. The zero polynomial written as the single digit \<open>0\<close> is the
  case \<open>c0 = 0\<close>.
\<close>

theorem bare_constant_prints_zero:
  assumes "t \<noteq> CHR '' ''" "1281 \<le> max_steps"
  shows "run_bf generate (c0 # t # rest) 256 max_steps = Inr [48, 10] \<and>
     (\<exists>s'. run_from generate (map of_char (c0 # t # rest)) 256 max_steps init_state = Inr s' \<and>
        output_buf s' = [48, 10] \<and> input_pos s' = 2)"
proof -
  have m: "int (constant_steps (of_char c0) (of_char t)) \<le> max_steps"
    using constant_steps_bound[of c0 t] assms(2) by linarith
  have "run_bf generate (c0 # t # rest) 256 max_steps =
      Inr (output_buf (loop_state 30000 0 1 2 [48, 10]))"
    by (rule run_bf_big[OF wf_mainP filter_generate constant_big[OF assms(1)] m])
  then show ?thesis using run_from_constant[OF assms(1) m, of rest] by simp
qed

theorem bare_constant_prints_zero_witness:
  "run_bf generate (''7'' @ [CHR 0x0A] @ ''1 2 3'') 256 1000000 = Inr [48, 10] \<and>
   (\<exists>s'. run_from generate (map of_char (''7'' @ [CHR 0x0A] @ ''1 2 3'')) 256 1000000 init_state
          = Inr s' \<and> output_buf s' = [48, 10] \<and> input_pos s' = 2)"
  using bare_constant_prints_zero[of "CHR 0x0A" 1000000 "CHR ''7''" "''1 2 3''"] by simp

section \<open>The cursor of the emitter\<close>




end
